theory Spec2Isabelle
  imports Main "HOL-Library.Word"
begin

section \<open>The breadth-first regexp bytecode interpreter\<close>

text \<open>
  This theory embeds the class \<^verbatim>\<open>NfaInterpreter\<close> of
  \<^verbatim>\<open>src/regexp/experimental/experimental-interpreter.cc\<close>.
  The members of the class are the fields of a record (the trailing underscore of the
  C++ member names is dropped, since Isabelle reserves such names), and every method is a
  function that takes the record and returns the updated one.

  The assertions of the code (\<^verbatim>\<open>DCHECK\<close>) and the bounds checks inside
  \<^verbatim>\<open>operator[]\<close> of \<^verbatim>\<open>Vector\<close> and \<^verbatim>\<open>SmallVector\<close> are
  branches of the model that return an error value.  The loops of the code are recursive
  functions in the option monad: the value \<open>None\<close> stands for a loop that never returns,
  and every statement that a method returns is proved as such.

  Program counters and input indices are \<^verbatim>\<open>int32_t\<close>/\<^verbatim>\<open>int\<close> in the code and
  \<^typ>\<open>int\<close> here: every increment in the code is applied to a value that was checked
  to be a valid index of a vector just before, so that none of them can wrap around.
\<close>

subsection \<open>Data\<close>

type_synonym uc16 = "16 word"

text \<open>
  The instruction record of the code is an opcode and a payload union that holds either a
  program counter or a range of code units; here it is a datatype with one constructor per
  opcode.
\<close>

datatype RegExpInstruction =
    CONSUME_RANGE uc16 uc16
  | FORK int
  | JMP int
  | ACCEPT

text \<open>The fields \<^verbatim>\<open>begin\<close> and \<^verbatim>\<open>end\<close> of \<^verbatim>\<open>MatchRange\<close> are keywords of Isabelle.\<close>

record MatchRange =
  range_begin :: int
  range_end :: int

record InterpreterThread =
  pc :: int
  match_begin :: int

record 'c NfaInterpreter =
  bytecode :: "RegExpInstruction list"
  input :: "'c list"
  input_index :: int
  pc_last_input_index :: "int list"
  active_threads :: "InterpreterThread list"
  blocked_threads :: "InterpreterThread list"
  best_match :: "MatchRange option"

datatype error = DCheckFailed | OutOfBounds

subsection \<open>Construction\<close>

definition NfaInterpreter_new ::
  "RegExpInstruction list \<Rightarrow> 'c list \<Rightarrow> int \<Rightarrow> error + 'c NfaInterpreter" where
  "NfaInterpreter_new code inp start =
     (if code = [] then Inl DCheckFailed
      else if \<not> 0 \<le> start then Inl DCheckFailed
      else if \<not> start \<le> int (length inp) then Inl DCheckFailed
      else Inr \<lparr>bytecode = code, input = inp, input_index = start,
                pc_last_input_index = replicate (length code) (- 1),
                active_threads = [], blocked_threads = [], best_match = None\<rparr>)"

definition SetInputIndex :: "'c NfaInterpreter \<Rightarrow> int \<Rightarrow> error + 'c NfaInterpreter" where
  "SetInputIndex s new_input_index =
     (if \<not> 0 \<le> input_index s then Inl DCheckFailed
      else if \<not> input_index s \<le> int (length (input s)) then Inl DCheckFailed
      else Inr (s\<lparr>input_index := new_input_index\<rparr>))"

subsection \<open>The table of processed program counters\<close>

definition IsPcProcessed :: "'c NfaInterpreter \<Rightarrow> int \<Rightarrow> error + bool" where
  "IsPcProcessed s p =
     (if p < 0 \<or> int (length (pc_last_input_index s)) \<le> p then Inl OutOfBounds
      else if \<not> pc_last_input_index s ! nat p \<le> input_index s then Inl DCheckFailed
      else Inr (pc_last_input_index s ! nat p = input_index s))"

definition MarkPcProcessed :: "'c NfaInterpreter \<Rightarrow> int \<Rightarrow> error + 'c NfaInterpreter" where
  "MarkPcProcessed s p =
     (if p < 0 \<or> int (length (pc_last_input_index s)) \<le> p then Inl OutOfBounds
      else if \<not> pc_last_input_index s ! nat p \<le> input_index s then Inl DCheckFailed
      else Inr (s\<lparr>pc_last_input_index := (pc_last_input_index s)[nat p := input_index s]\<rparr>))"

subsection \<open>Stepping one thread\<close>

text \<open>
  \<^verbatim>\<open>RunActiveThread\<close> is a \<^verbatim>\<open>while (true)\<close> loop over the local copy \<open>t\<close>
  of the thread; each iteration of the loop is one unfolding of the recursion.
\<close>

partial_function (option) RunActiveThread ::
  "'c NfaInterpreter \<Rightarrow> InterpreterThread \<Rightarrow> (error + 'c NfaInterpreter) option" where
  "RunActiveThread s t =
     (case IsPcProcessed s (pc t) of
        Inl e \<Rightarrow> Some (Inl e)
      | Inr processed \<Rightarrow>
          if processed then Some (Inr s)
          else
          (case MarkPcProcessed s (pc t) of
             Inl e \<Rightarrow> Some (Inl e)
           | Inr s1 \<Rightarrow>
               if pc t < 0 \<or> int (length (bytecode s1)) \<le> pc t then Some (Inl OutOfBounds)
               else
                 (case bytecode s1 ! nat (pc t) of
                    CONSUME_RANGE lo hi \<Rightarrow>
                      Some (Inr (s1\<lparr>blocked_threads := blocked_threads s1 @ [t]\<rparr>))
                  | FORK target \<Rightarrow>
                      RunActiveThread
                        (s1\<lparr>active_threads := active_threads s1 @ [t\<lparr>pc := target\<rparr>]\<rparr>)
                        (t\<lparr>pc := pc t + 1\<rparr>)
                  | JMP target \<Rightarrow> RunActiveThread s1 (t\<lparr>pc := target\<rparr>)
                  | ACCEPT \<Rightarrow>
                      Some (Inr (s1\<lparr>best_match :=
                                       Some \<lparr>range_begin = match_begin t,
                                             range_end = input_index s1\<rparr>,
                                     active_threads := []\<rparr>)))))"

declare RunActiveThread.simps [code]

subsection \<open>Draining the active threads\<close>

partial_function (option) RunActiveThreads ::
  "'c NfaInterpreter \<Rightarrow> (error + 'c NfaInterpreter) option" where
  "RunActiveThreads s =
     (if active_threads s \<noteq> [] then
        (case RunActiveThread (s\<lparr>active_threads := butlast (active_threads s)\<rparr>)
                (last (active_threads s)) of
           None \<Rightarrow> None
         | Some (Inl e) \<Rightarrow> Some (Inl e)
         | Some (Inr s1) \<Rightarrow> RunActiveThreads s1)
      else Some (Inr s))"

declare RunActiveThreads.simps [code]

subsection \<open>Feeding a code unit to the blocked threads\<close>

text \<open>
  The loop of \<^verbatim>\<open>FlushBlockedThreads\<close> counts \<open>i\<close> down from the size of the
  blocked list to 1 and reads the thread at \<open>i - 1\<close>; the list is cleared after the loop.
\<close>

fun FlushBlockedThreads_loop ::
  "'c NfaInterpreter \<Rightarrow> uc16 \<Rightarrow> nat \<Rightarrow> error + 'c NfaInterpreter" where
  "FlushBlockedThreads_loop s input_char 0 = Inr s"
| "FlushBlockedThreads_loop s input_char (Suc j) =
     (if length (blocked_threads s) \<le> j then Inl OutOfBounds
      else
        let t = blocked_threads s ! j in
        if pc t < 0 \<or> int (length (bytecode s)) \<le> pc t then Inl OutOfBounds
        else
          (case bytecode s ! nat (pc t) of
             CONSUME_RANGE lo hi \<Rightarrow>
               FlushBlockedThreads_loop
                 (if lo \<le> input_char \<and> input_char \<le> hi
                  then s\<lparr>active_threads := active_threads s @ [t\<lparr>pc := pc t + 1\<rparr>]\<rparr>
                  else s)
                 input_char j
           | _ \<Rightarrow> Inl DCheckFailed))"

definition FlushBlockedThreads :: "'c NfaInterpreter \<Rightarrow> uc16 \<Rightarrow> error + 'c NfaInterpreter" where
  "FlushBlockedThreads s input_char =
     (case FlushBlockedThreads_loop s input_char (length (blocked_threads s)) of
        Inl e \<Rightarrow> Inl e
      | Inr s1 \<Rightarrow> Inr (s1\<lparr>blocked_threads := []\<rparr>))"

subsection \<open>Searching one match\<close>

text \<open>The \<^verbatim>\<open>while\<close> loop of \<^verbatim>\<open>FindNextMatch\<close>, one code unit per iteration.\<close>

partial_function (option) FindNextMatch_loop ::
  "'c::len word NfaInterpreter \<Rightarrow> (error + 'c word NfaInterpreter) option" where
  "FindNextMatch_loop s =
     (if input_index s \<noteq> int (length (input s)) \<and>
         \<not> (best_match s \<noteq> None \<and> blocked_threads s = []) then
        if active_threads s \<noteq> [] then Some (Inl DCheckFailed)
        else if input_index s < 0 \<or> int (length (input s)) \<le> input_index s
        then Some (Inl OutOfBounds)
        else
          let input_char = (ucast (input s ! nat (input_index s)) :: uc16);
              s1 = s\<lparr>input_index := input_index s + 1\<rparr>;
              s2 = (if best_match s1 = None
                    then s1\<lparr>active_threads := active_threads s1 @
                              [\<lparr>pc = 0, match_begin = input_index s1\<rparr>]\<rparr>
                    else s1)
          in
            (case FlushBlockedThreads s2 input_char of
               Inl e \<Rightarrow> Some (Inl e)
             | Inr s3 \<Rightarrow>
                 (case RunActiveThreads s3 of
                    None \<Rightarrow> None
                  | Some (Inl e) \<Rightarrow> Some (Inl e)
                  | Some (Inr s4) \<Rightarrow> FindNextMatch_loop s4))
      else Some (Inr s))"

declare FindNextMatch_loop.simps [code]

definition FindNextMatch ::
  "'c::len word NfaInterpreter \<Rightarrow> (error + MatchRange option \<times> 'c word NfaInterpreter) option" where
  "FindNextMatch s =
     (if active_threads s \<noteq> [] then Some (Inl DCheckFailed)
      else
        let s1 = s\<lparr>pc_last_input_index :=
                     replicate (length (pc_last_input_index s)) (- 1)\<rparr>
        in
          if blocked_threads s1 \<noteq> [] \<or> active_threads s1 \<noteq> [] \<or> best_match s1 \<noteq> None
          then Some (Inl DCheckFailed)
          else
            (case RunActiveThreads
                    (s1\<lparr>active_threads := active_threads s1 @
                           [\<lparr>pc = 0, match_begin = input_index s1\<rparr>]\<rparr>) of
               None \<Rightarrow> None
             | Some (Inl e) \<Rightarrow> Some (Inl e)
             | Some (Inr s2) \<Rightarrow>
                 (case FindNextMatch_loop s2 of
                    None \<Rightarrow> None
                  | Some (Inl e) \<Rightarrow> Some (Inl e)
                  | Some (Inr s3) \<Rightarrow>
                      Some (Inr (best_match s3,
                                 s3\<lparr>best_match := None, blocked_threads := [],
                                    active_threads := []\<rparr>)))))"

subsection \<open>Searching several matches\<close>

text \<open>
  The output buffer \<^verbatim>\<open>matches_out\<close> is a list of the length that the caller
  allocated; a write beyond it is an error.  The loop variable \<^verbatim>\<open>match_num\<close> is
  an argument of the recursion, and the loop returns it together with the buffer.
\<close>

partial_function (option) FindMatches_loop ::
  "'c::len word NfaInterpreter \<Rightarrow> MatchRange list \<Rightarrow> int \<Rightarrow> int \<Rightarrow>
     (error + 'c word NfaInterpreter \<times> MatchRange list \<times> int) option" where
  "FindMatches_loop s matches_out max_match_num match_num =
     (if match_num \<noteq> max_match_num then
        (case FindNextMatch s of
           None \<Rightarrow> None
         | Some (Inl e) \<Rightarrow> Some (Inl e)
         | Some (Inr (None, s1)) \<Rightarrow> Some (Inr (s1, matches_out, match_num))
         | Some (Inr (Some m, s1)) \<Rightarrow>
             if match_num < 0 \<or> int (length matches_out) \<le> match_num
             then Some (Inl OutOfBounds)
             else
               (case SetInputIndex s1 (range_end m) of
                  Inl e \<Rightarrow> Some (Inl e)
                | Inr s2 \<Rightarrow>
                    FindMatches_loop s2 (matches_out[nat match_num := m]) max_match_num
                      (match_num + 1)))
      else Some (Inr (s, matches_out, match_num)))"

declare FindMatches_loop.simps [code]

definition FindMatches ::
  "'c::len word NfaInterpreter \<Rightarrow> MatchRange list \<Rightarrow> int \<Rightarrow>
     (error + 'c word NfaInterpreter \<times> MatchRange list \<times> int) option" where
  "FindMatches s matches_out max_match_num = FindMatches_loop s matches_out max_match_num 0"

text \<open>The two entry points construct an interpreter and search from the start index.\<close>

definition FindMatchesNfa ::
  "RegExpInstruction list \<Rightarrow> 'c::len word list \<Rightarrow> int \<Rightarrow> MatchRange list \<Rightarrow> int \<Rightarrow>
     (error + MatchRange list \<times> int) option" where
  "FindMatchesNfa code inp start_index matches_out max_match_num =
     (case NfaInterpreter_new code inp start_index of
        Inl e \<Rightarrow> Some (Inl e)
      | Inr s \<Rightarrow>
          (case FindMatches s matches_out max_match_num of
             None \<Rightarrow> None
           | Some (Inl e) \<Rightarrow> Some (Inl e)
           | Some (Inr (s1, out, n)) \<Rightarrow> Some (Inr (out, n))))"

definition FindMatchesNfaOneByte ::
  "RegExpInstruction list \<Rightarrow> 8 word list \<Rightarrow> int \<Rightarrow> MatchRange list \<Rightarrow> int \<Rightarrow>
     (error + MatchRange list \<times> int) option" where
  "FindMatchesNfaOneByte = FindMatchesNfa"

definition FindMatchesNfaTwoByte ::
  "RegExpInstruction list \<Rightarrow> uc16 list \<Rightarrow> int \<Rightarrow> MatchRange list \<Rightarrow> int \<Rightarrow>
     (error + MatchRange list \<times> int) option" where
  "FindMatchesNfaTwoByte = FindMatchesNfa"

section \<open>Auxiliary notions for the proofs\<close>

text \<open>
  A program counter is \<open>runnable\<close> in a state when both checks of
  \<^verbatim>\<open>IsPcProcessed\<close> pass and it answers no; \<open>mark\<close> is the state that
  \<^verbatim>\<open>MarkPcProcessed\<close> then returns.  The number of table entries that differ from the
  current input index, \<open>unprocessed\<close>, is the measure that bounds the loops.
\<close>

definition runnable :: "'c NfaInterpreter \<Rightarrow> int \<Rightarrow> bool" where
  "runnable s p \<longleftrightarrow>
     0 \<le> p \<and> p < int (length (pc_last_input_index s)) \<and>
     pc_last_input_index s ! nat p < input_index s"

definition mark :: "'c NfaInterpreter \<Rightarrow> int \<Rightarrow> 'c NfaInterpreter" where
  "mark s p = s\<lparr>pc_last_input_index := (pc_last_input_index s)[nat p := input_index s]\<rparr>"

definition unprocessed :: "'c NfaInterpreter \<Rightarrow> nat" where
  "unprocessed s = length (filter (\<lambda>x. x \<noteq> input_index s) (pc_last_input_index s))"

text \<open>
  The closed form of \<^verbatim>\<open>FlushBlockedThreads\<close> is written with \<open>advance\<close> (the increment
  of the program counter) and \<open>consumes\<close> (the test of the range); \<open>blocked_ok\<close> is the
  assertion of the code that every blocked thread stands at a \<^verbatim>\<open>CONSUME_RANGE\<close>
  instruction.
\<close>

definition advance :: "InterpreterThread \<Rightarrow> InterpreterThread" where
  "advance t = t\<lparr>pc := pc t + 1\<rparr>"

definition consumes :: "RegExpInstruction list \<Rightarrow> uc16 \<Rightarrow> InterpreterThread \<Rightarrow> bool" where
  "consumes code c t =
     (case code ! nat (pc t) of
        CONSUME_RANGE lo hi \<Rightarrow> lo \<le> c \<and> c \<le> hi
      | _ \<Rightarrow> False)"

definition is_consume :: "RegExpInstruction \<Rightarrow> bool" where
  "is_consume i = (case i of CONSUME_RANGE lo hi \<Rightarrow> True | _ \<Rightarrow> False)"

definition blocked_ok :: "'c NfaInterpreter \<Rightarrow> bool" where
  "blocked_ok s =
     list_all (\<lambda>t. 0 \<le> pc t \<and> pc t < int (length (bytecode s)) \<and>
                    is_consume (bytecode s ! nat (pc t)))
       (blocked_threads s)"

text \<open>
  The condition of the loop of \<^verbatim>\<open>FindNextMatch\<close> for an index within the input, the
  code unit that an iteration reads, and the state after the index was incremented and the
  fresh thread was added.
\<close>

definition searching :: "'c NfaInterpreter \<Rightarrow> bool" where
  "searching s \<longleftrightarrow>
     input_index s < int (length (input s)) \<and>
     \<not> (best_match s \<noteq> None \<and> blocked_threads s = [])"

definition next_char :: "'c::len word NfaInterpreter \<Rightarrow> uc16" where
  "next_char s = ucast (input s ! nat (input_index s))"

definition seed :: "'c NfaInterpreter \<Rightarrow> 'c NfaInterpreter" where
  "seed s =
     (if best_match s = None
      then s\<lparr>input_index := input_index s + 1,
             active_threads := active_threads s @
               [\<lparr>pc = 0, match_begin = input_index s + 1\<rparr>]\<rparr>
      else s\<lparr>input_index := input_index s + 1\<rparr>)"

text \<open>
  What a call of \<^verbatim>\<open>RunActiveThread\<close> can do to the threads and the best match: it
  keeps the best match and the active threads (new ones may follow them) and at most appends
  the thread to the blocked ones, or it commits a match and discards the active threads.
\<close>

definition outcome :: "'c NfaInterpreter \<Rightarrow> InterpreterThread \<Rightarrow> 'c NfaInterpreter \<Rightarrow> bool" where
  "outcome s t s' \<longleftrightarrow>
     (best_match s' = best_match s \<and> (\<exists>ext. active_threads s' = active_threads s @ ext) \<and>
      (blocked_threads s' = blocked_threads s \<or>
       (\<exists>u. blocked_threads s' = blocked_threads s @ [u] \<and>
            match_begin u = match_begin t))) \<or>
     (best_match s' = Some \<lparr>range_begin = match_begin t, range_end = input_index s\<rparr> \<and>
      active_threads s' = [] \<and> blocked_threads s' = blocked_threads s)"

text \<open>Concrete states and threads, on which the theorems are instantiated.\<close>

definition example_state :: "8 word NfaInterpreter" where
  "example_state =
     \<lparr>bytecode = [FORK 2, CONSUME_RANGE 97 98, ACCEPT], input = [97, 98],
      input_index = 0, pc_last_input_index = [- 1, - 1, - 1],
      active_threads = [], blocked_threads = [], best_match = None\<rparr>"

definition example_thread :: "int \<Rightarrow> InterpreterThread" where
  "example_thread p = \<lparr>pc = p, match_begin = 0\<rparr>"

definition example_blocked :: "8 word NfaInterpreter" where
  "example_blocked =
     \<lparr>bytecode = [CONSUME_RANGE 97 97, CONSUME_RANGE 98 98, CONSUME_RANGE 97 99, ACCEPT],
      input = [97, 98], input_index = 1, pc_last_input_index = [0, 0, 0, - 1],
      active_threads = [\<lparr>pc = 0, match_begin = 1\<rparr>],
      blocked_threads = [example_thread 0, example_thread 1, example_thread 2],
      best_match = None\<rparr>"

text \<open>
  Modelled from the spec: the program of end-to-end scenario 1, which is test data of the
  spec and is in no source file.  Its listing has thirteen instructions and two jumps to a
  label \<^verbatim>\<open>end\<close> that the listing does not place; the label is the parameter of the
  definition.  \<^verbatim>\<open>CONSUME .\<close> is the range of all code units.
\<close>

definition scenario1 :: "int \<Rightarrow> RegExpInstruction list" where
  "scenario1 end_label =
     [FORK 6, CONSUME_RANGE 0x61 0x61, CONSUME_RANGE 0x62 0x62, CONSUME_RANGE 0x63 0x63,
      ACCEPT, JMP end_label,
      FORK 10, CONSUME_RANGE 0 0xFFFF, CONSUME_RANGE 0 0xFFFF, ACCEPT,
      FORK end_label, CONSUME_RANGE 0x61 0x63, JMP 10]"

definition scenario1_input :: "8 word list" where
  "scenario1_input = map of_char ''abcccccccccccccc''"

text \<open>The state between two searches, as \<^verbatim>\<open>FindNextMatch\<close> asserts and leaves it.\<close>

definition clean :: "'c NfaInterpreter \<Rightarrow> bool" where
  "clean s \<longleftrightarrow>
     active_threads s = [] \<and> blocked_threads s = [] \<and> best_match s = None \<and>
     length (pc_last_input_index s) = length (bytecode s)"

subsection \<open>Validity of programs and the invariant of a search\<close>

text \<open>
  Modelled from the spec: the validity of a program, which the code assumes and does not
  test.  A valid program is not empty, the targets of its \<^verbatim>\<open>FORK\<close> and \<^verbatim>\<open>JMP\<close>
  instructions are program counters of the program, and the lower bound of each
  \<^verbatim>\<open>CONSUME_RANGE\<close> is not above the upper bound.
\<close>

definition valid_program :: "RegExpInstruction list \<Rightarrow> bool" where
  "valid_program code \<longleftrightarrow>
     code \<noteq> [] \<and>
     list_all
       (\<lambda>i. case i of
               CONSUME_RANGE lo hi \<Rightarrow> lo \<le> hi
             | FORK target \<Rightarrow> 0 \<le> target \<and> target < int (length code)
             | JMP target \<Rightarrow> 0 \<le> target \<and> target < int (length code)
             | ACCEPT \<Rightarrow> True)
       code"

text \<open>
  A valid program may still end with an instruction that passes control to the next one:
  a thread that steps over a final \<^verbatim>\<open>CONSUME_RANGE\<close> or \<^verbatim>\<open>FORK\<close> has the length of the
  program as its program counter, where the code reads beyond its vectors.  A program
  \<open>stays_within\<close> when its last instruction is neither of the two.
\<close>

definition stays_within :: "RegExpInstruction list \<Rightarrow> bool" where
  "stays_within code \<longleftrightarrow>
     (case last code of
        CONSUME_RANGE lo hi \<Rightarrow> False
      | FORK target \<Rightarrow> False
      | JMP target \<Rightarrow> True
      | ACCEPT \<Rightarrow> True)"

text \<open>
  What the code needs of a program: it is not empty, the targets of its \<^verbatim>\<open>FORK\<close> and
  \<^verbatim>\<open>JMP\<close> instructions are program counters of the program, and an instruction that passes
  control to the next one (\<^verbatim>\<open>CONSUME_RANGE\<close> and \<^verbatim>\<open>FORK\<close>) is not the last.  The order
  of the bounds of a range plays no role in the code (an empty range consumes nothing).
  Every valid program that stays within its instructions is well formed.
\<close>

definition well_formed :: "RegExpInstruction list \<Rightarrow> bool" where
  "well_formed code \<longleftrightarrow>
     code \<noteq> [] \<and>
     list_all
       (\<lambda>i. case code ! i of
               CONSUME_RANGE lo hi \<Rightarrow> Suc i < length code
             | FORK target \<Rightarrow> 0 \<le> target \<and> target < int (length code) \<and> Suc i < length code
             | JMP target \<Rightarrow> 0 \<le> target \<and> target < int (length code)
             | ACCEPT \<Rightarrow> True)
       [0..<length code]"

text \<open>
  The invariant of a search that began at the input index \<open>lo\<close>: the table has one entry
  per instruction, none beyond the current input index; every thread is at a program
  counter of the program and began between \<open>lo\<close> and the current index; the blocked
  threads are at \<^verbatim>\<open>CONSUME_RANGE\<close> instructions; the best match lies between \<open>lo\<close> and
  the current index.
\<close>

definition thread_inv :: "RegExpInstruction list \<Rightarrow> int \<Rightarrow> int \<Rightarrow> InterpreterThread \<Rightarrow> bool" where
  "thread_inv code lo hi t \<longleftrightarrow>
     0 \<le> pc t \<and> pc t < int (length code) \<and> lo \<le> match_begin t \<and> match_begin t \<le> hi"

definition search_inv :: "int \<Rightarrow> 'c NfaInterpreter \<Rightarrow> bool" where
  "search_inv lo s \<longleftrightarrow>
     well_formed (bytecode s) \<and>
     length (pc_last_input_index s) = length (bytecode s) \<and>
     0 \<le> lo \<and> lo \<le> input_index s \<and> input_index s \<le> int (length (input s)) \<and>
     list_all (\<lambda>x. x \<le> input_index s) (pc_last_input_index s) \<and>
     list_all (thread_inv (bytecode s) lo (input_index s)) (active_threads s) \<and>
     list_all (thread_inv (bytecode s) lo (input_index s)) (blocked_threads s) \<and>
     blocked_ok s \<and>
     (\<forall>m \<in> set_option (best_match s).
        lo \<le> range_begin m \<and> range_begin m \<le> range_end m \<and>
        range_end m \<le> input_index s)"

text \<open>
  The match (or none) that a search of a freshly constructed interpreter finds from a
  given input index; the input index at which the search for the match at place \<open>i\<close> of
  the buffer begins; and what holds of a match found from the index \<open>c\<close>.
\<close>

definition found_at ::
  "RegExpInstruction list \<Rightarrow> 'c::len word list \<Rightarrow> int \<Rightarrow> MatchRange option \<Rightarrow> bool" where
  "found_at code inp cursor m =
     (case NfaInterpreter_new code inp cursor of
        Inl e \<Rightarrow> False
      | Inr s0 \<Rightarrow>
          (case FindNextMatch s0 of
             Some (Inr (m', s1)) \<Rightarrow> m' = m
           | _ \<Rightarrow> False))"

definition cursor :: "int \<Rightarrow> nat \<Rightarrow> MatchRange list \<Rightarrow> nat \<Rightarrow> int" where
  "cursor start n out i = (if i = n then start else range_end (out ! (i - 1)))"

definition match_ok ::
  "RegExpInstruction list \<Rightarrow> 'c::len word list \<Rightarrow> int \<Rightarrow> MatchRange \<Rightarrow> bool" where
  "match_ok code inp c m \<longleftrightarrow>
     found_at code inp c (Some m) \<and> c \<le> range_begin m \<and> range_begin m \<le> range_end m \<and>
     range_end m \<le> int (length inp)"

text \<open>More concrete programs and states.\<close>

definition example_program :: "RegExpInstruction list" where
  "example_program = [CONSUME_RANGE 0x61 0x61, ACCEPT]"

definition example_input :: "8 word list" where
  "example_input = map of_char ''abacad''"

definition cyclic_program :: "RegExpInstruction list" where
  "cyclic_program = [FORK 2, JMP 0, FORK 0, JMP 1]"

definition cyclic_state :: "8 word NfaInterpreter" where
  "cyclic_state =
     \<lparr>bytecode = cyclic_program, input = [0x61], input_index = 0,
      pc_last_input_index = [- 1, - 1, - 1, - 1],
      active_threads = [], blocked_threads = [], best_match = None\<rparr>"

text \<open>
  A search of \<open>example_program\<close> on \<open>example_input\<close>: the fresh interpreter, and the
  state in which the loop of \<^verbatim>\<open>FindNextMatch\<close> is entered, where the one thread is
  blocked at the \<^verbatim>\<open>CONSUME_RANGE\<close> instruction.
\<close>

definition example_search :: "8 word NfaInterpreter" where
  "example_search =
     \<lparr>bytecode = example_program, input = example_input, input_index = 0,
      pc_last_input_index = [- 1, - 1],
      active_threads = [], blocked_threads = [], best_match = None\<rparr>"

definition example_loop_head :: "8 word NfaInterpreter" where
  "example_loop_head =
     example_search\<lparr>pc_last_input_index := [0, - 1],
                      blocked_threads := [\<lparr>pc = 0, match_begin = 0\<rparr>]\<rparr>"

text \<open>
  A valid program that ends with a \<^verbatim>\<open>CONSUME_RANGE\<close> instruction, and the state in which
  the loop of \<^verbatim>\<open>FindNextMatch\<close> is entered when the program is run on the input
  \<^verbatim>\<open>a\<close>.
\<close>

definition short_program :: "RegExpInstruction list" where
  "short_program = [CONSUME_RANGE 0x61 0x61]"

definition short_loop_head :: "8 word NfaInterpreter" where
  "short_loop_head =
     \<lparr>bytecode = short_program, input = [0x61], input_index = 0,
      pc_last_input_index = [0],
      active_threads = [], blocked_threads = [\<lparr>pc = 0, match_begin = 0\<rparr>],
      best_match = None\<rparr>"

subsection \<open>Counting the threads\<close>

text \<open>
  The active threads of one input index are the fresh thread, the blocked threads of the
  index before that consumed the code unit, and one thread for each \<^verbatim>\<open>FORK\<close> instruction
  that was decoded at this index.  So the number of active threads plus the number of
  \<^verbatim>\<open>FORK\<close> instructions not yet processed at the current index (\<open>pending_forks\<close>) never
  exceeds \<open>capacity\<close>: one, plus the number of \<^verbatim>\<open>CONSUME_RANGE\<close> instructions, plus the
  number of \<^verbatim>\<open>FORK\<close> instructions.  The blocked threads stand at pairwise different
  program counters, all of them processed at the current index.
\<close>

definition is_fork :: "RegExpInstruction \<Rightarrow> bool" where
  "is_fork i = (case i of FORK target \<Rightarrow> True | _ \<Rightarrow> False)"

definition pending_forks :: "'c NfaInterpreter \<Rightarrow> nat" where
  "pending_forks s =
     length (filter (\<lambda>i. is_fork (bytecode s ! i) \<and>
                          pc_last_input_index s ! i \<noteq> input_index s)
               [0..<length (bytecode s)])"

definition capacity :: "RegExpInstruction list \<Rightarrow> nat" where
  "capacity code = 1 + length (filter is_consume code) + length (filter is_fork code)"

definition bound_inv :: "'c NfaInterpreter \<Rightarrow> bool" where
  "bound_inv s \<longleftrightarrow>
     distinct (map pc (blocked_threads s)) \<and>
     list_all (\<lambda>t. pc_last_input_index s ! nat (pc t) = input_index s) (blocked_threads s) \<and>
     length (active_threads s) + pending_forks s \<le> capacity (bytecode s)"

definition bounded :: "'c NfaInterpreter \<Rightarrow> bool" where
  "bounded s \<longleftrightarrow>
     length (active_threads s) \<le> length (bytecode s) \<and>
     length (blocked_threads s) \<le> length (bytecode s) \<and>
     distinct (map pc (blocked_threads s))"

text \<open>
  The state in which \<^verbatim>\<open>FindNextMatch\<close> starts to drain the active threads, and the
  state of the loop of \<^verbatim>\<open>FlushBlockedThreads\<close> when the blocked threads from the place
  \<open>j\<close> on have been handled.
\<close>

definition start_search :: "'c NfaInterpreter \<Rightarrow> 'c NfaInterpreter" where
  "start_search s =
     s\<lparr>pc_last_input_index := replicate (length (pc_last_input_index s)) (- 1),
       active_threads := [\<lparr>pc = 0, match_begin = input_index s\<rparr>]\<rparr>"

definition flushed_from :: "'c NfaInterpreter \<Rightarrow> uc16 \<Rightarrow> nat \<Rightarrow> 'c NfaInterpreter" where
  "flushed_from s c j =
     s\<lparr>active_threads := active_threads s @
          map advance (filter (consumes (bytecode s) c) (rev (drop j (blocked_threads s))))\<rparr>"

text \<open>A program in which two threads with the same program counter are active at once.\<close>

definition duplicate_program :: "RegExpInstruction list" where
  "duplicate_program = [FORK 3, FORK 3, CONSUME_RANGE 0x61 0x61, ACCEPT]"

definition duplicate_state :: "8 word NfaInterpreter" where
  "duplicate_state =
     \<lparr>bytecode = duplicate_program, input = [0x61], input_index = 0,
      pc_last_input_index = [- 1, - 1, - 1, - 1],
      active_threads = [], blocked_threads = [], best_match = None\<rparr>"

subsection \<open>The backtracking VM of the specification\<close>

text \<open>
  Modelled from the spec: the conventional leftmost-biased backtracking VM, limited to the
  four instructions, with which the specification compares the result of a search.  It is
  no code of the repository.  A thread of the VM runs from a program counter \<open>p\<close> and an
  input index \<open>i\<close>.  \<^verbatim>\<open>CONSUME_RANGE\<close> goes on at the next instruction and the next index
  when the code unit at \<open>i\<close> lies in the range, and fails otherwise, also at the end of the
  input.  \<^verbatim>\<open>FORK\<close> first runs the continuation at \<open>p + 1\<close> and, only when that has failed,
  the target.  \<^verbatim>\<open>JMP\<close> goes on at the target, and \<^verbatim>\<open>ACCEPT\<close> succeeds with \<open>i\<close> as
  the end of the match.  A program counter outside the program fails.  The result is
  \<open>Some (Some e)\<close> for a match that ends at \<open>e\<close>, \<open>Some None\<close> for a failure, and \<open>None\<close>
  when the VM does not return, as in a cycle of \<^verbatim>\<open>FORK\<close> and \<^verbatim>\<open>JMP\<close> instructions.  The
  search tries the start indices from the given one up to the length of the input, in this
  order, and returns the match of the first index at which the VM succeeds.
\<close>

definition in_range :: "'c::len word list \<Rightarrow> int \<Rightarrow> uc16 \<Rightarrow> uc16 \<Rightarrow> bool" where
  "in_range inp i lo hi \<longleftrightarrow>
     0 \<le> i \<and> i < int (length inp) \<and>
     lo \<le> (ucast (inp ! nat i) :: uc16) \<and> (ucast (inp ! nat i) :: uc16) \<le> hi"

partial_function (option) spec_backtrack ::
  "RegExpInstruction list \<Rightarrow> 'c::len word list \<Rightarrow> int \<Rightarrow> int \<Rightarrow> int option option" where
  "spec_backtrack code inp p i =
     (if p < 0 \<or> int (length code) \<le> p then Some None
      else
        (case code ! nat p of
           CONSUME_RANGE lo hi \<Rightarrow>
             if in_range inp i lo hi
             then spec_backtrack code inp (p + 1) (i + 1)
             else Some None
         | FORK target \<Rightarrow>
             Option.bind (spec_backtrack code inp (p + 1) i)
               (\<lambda>r. case r of
                      Some e \<Rightarrow> Some (Some e)
                    | None \<Rightarrow> spec_backtrack code inp target i)
         | JMP target \<Rightarrow> spec_backtrack code inp target i
         | ACCEPT \<Rightarrow> Some (Some i)))"

declare spec_backtrack.simps [code]

partial_function (option) spec_backtrack_search ::
  "RegExpInstruction list \<Rightarrow> 'c::len word list \<Rightarrow> int \<Rightarrow> MatchRange option option" where
  "spec_backtrack_search code inp start =
     (if int (length inp) < start then Some None
      else
        (case spec_backtrack code inp 0 start of
           None \<Rightarrow> None
         | Some (Some e) \<Rightarrow> Some (Some \<lparr>range_begin = start, range_end = e\<rparr>)
         | Some None \<Rightarrow> spec_backtrack_search code inp (start + 1)))"

declare spec_backtrack_search.simps [code]

text \<open>
  The VM with a bound \<open>n\<close> on the depth of its recursion; \<open>None\<close> says that the bound was
  reached.  Whenever the VM returns, the bounded VM returns the same for some bound.  The
  bounded search tries \<open>k\<close> start indices from \<open>b\<close> on, and \<open>first_match\<close> runs the threads
  of a list in their order, from the same input index, up to the first that succeeds.
\<close>

fun bt ::
  "nat \<Rightarrow> RegExpInstruction list \<Rightarrow> 'c::len word list \<Rightarrow> int \<Rightarrow> int \<Rightarrow> int option option" where
  "bt 0 code inp p i = None"
| "bt (Suc n) code inp p i =
     (if p < 0 \<or> int (length code) \<le> p then Some None
      else
        (case code ! nat p of
           CONSUME_RANGE lo hi \<Rightarrow>
             if in_range inp i lo hi
             then bt n code inp (p + 1) (i + 1)
             else Some None
         | FORK target \<Rightarrow>
             (case bt n code inp (p + 1) i of
                None \<Rightarrow> None
              | Some (Some e) \<Rightarrow> Some (Some e)
              | Some None \<Rightarrow> bt n code inp target i)
         | JMP target \<Rightarrow> bt n code inp target i
         | ACCEPT \<Rightarrow> Some (Some i)))"

fun bt_search ::
  "nat \<Rightarrow> RegExpInstruction list \<Rightarrow> 'c::len word list \<Rightarrow> int \<Rightarrow> nat \<Rightarrow>
     MatchRange option option" where
  "bt_search n code inp b 0 = Some None"
| "bt_search n code inp b (Suc k) =
     (case bt n code inp 0 b of
        None \<Rightarrow> None
      | Some (Some e) \<Rightarrow> Some (Some \<lparr>range_begin = b, range_end = e\<rparr>)
      | Some None \<Rightarrow> bt_search n code inp (b + 1) k)"

fun first_match ::
  "nat \<Rightarrow> RegExpInstruction list \<Rightarrow> 'c::len word list \<Rightarrow> int \<Rightarrow> InterpreterThread list \<Rightarrow>
     MatchRange option option" where
  "first_match n code inp i [] = Some None"
| "first_match n code inp i (t # ts) =
     (case bt n code inp (pc t) i of
        None \<Rightarrow> None
      | Some (Some e) \<Rightarrow> Some (Some \<lparr>range_begin = match_begin t, range_end = e\<rparr>)
      | Some None \<Rightarrow> first_match n code inp i ts)"

definition lift_end :: "InterpreterThread \<Rightarrow> int option \<Rightarrow> MatchRange option" where
  "lift_end t x = map_option (\<lambda>e. \<lparr>range_begin = match_begin t, range_end = e\<rparr>) x"

text \<open>
  The invariant that relates the interpreter to the backtracking VM.  The threads of the
  interpreter, in the order of their priority, are the blocked threads followed by the
  active threads from the last to the first.  \<open>expected\<close> is the result that the VM would
  produce from such a list of threads at the current input index: the match of the first
  thread that succeeds; when none succeeds, the best match if there is one, and else the
  result of the search from the next index on.  A program counter that is recorded in the
  table for the current index is \<open>covered\<close>: if no blocked thread succeeds, then whenever
  the VM succeeds from this program counter, it succeeds from one of the first few
  threads of the list (with a smaller bound), so that a thread that arrives at a recorded
  program counter can be dropped.
\<close>

definition expected ::
  "nat \<Rightarrow> RegExpInstruction list \<Rightarrow> 'c::len word list \<Rightarrow> int \<Rightarrow> InterpreterThread list \<Rightarrow>
     MatchRange option \<Rightarrow> MatchRange option option" where
  "expected n code inp i ts best =
     (case first_match n code inp i ts of
        None \<Rightarrow> None
      | Some (Some m) \<Rightarrow> Some (Some m)
      | Some None \<Rightarrow>
          (case best of
             Some m \<Rightarrow> Some (Some m)
           | None \<Rightarrow> bt_search n code inp (i + 1) (nat (int (length inp) - i))))"

definition never_succeeds ::
  "RegExpInstruction list \<Rightarrow> 'c::len word list \<Rightarrow> int \<Rightarrow> InterpreterThread \<Rightarrow> bool" where
  "never_succeeds code inp i t \<longleftrightarrow> (\<forall>n e. bt n code inp (pc t) i \<noteq> Some (Some e))"

definition covered ::
  "RegExpInstruction list \<Rightarrow> 'c::len word list \<Rightarrow> int \<Rightarrow> InterpreterThread list \<Rightarrow> int \<Rightarrow> bool"
  where
  "covered code inp i xs p \<longleftrightarrow>
     (\<exists>j \<le> length xs. \<forall>n r. bt (Suc n) code inp p i = Some r \<longrightarrow>
        (\<exists>r'. first_match n code inp i (take j xs) = Some r' \<and> (r' = None \<longrightarrow> r = None)))"

definition recorded :: "'c NfaInterpreter \<Rightarrow> int \<Rightarrow> bool" where
  "recorded s p \<longleftrightarrow>
     0 \<le> p \<and> p < int (length (pc_last_input_index s)) \<and>
     pc_last_input_index s ! nat p = input_index s"

definition settled :: "'c::len word NfaInterpreter \<Rightarrow> InterpreterThread list \<Rightarrow> bool" where
  "settled s xs \<longleftrightarrow>
     ((\<forall>t \<in> set (blocked_threads s). never_succeeds (bytecode s) (input s) (input_index s) t) \<longrightarrow>
      (\<forall>p. recorded s p \<longrightarrow> covered (bytecode s) (input s) (input_index s) xs p))"

definition expected_of ::
  "nat \<Rightarrow> 'c::len word NfaInterpreter \<Rightarrow> InterpreterThread list \<Rightarrow> MatchRange option option" where
  "expected_of n s xs =
     expected n (bytecode s) (input s) (input_index s) (blocked_threads s @ xs) (best_match s)"

text \<open>
  A valid program with a cycle of \<^verbatim>\<open>FORK\<close> and \<^verbatim>\<open>JMP\<close> that the continuation of the
  first instruction enters at once.
\<close>

definition epsilon_cycle :: "RegExpInstruction list" where
  "epsilon_cycle = [FORK 2, JMP 0, ACCEPT]"

section \<open>Facts about the interpreter\<close>

subsection \<open>One iteration of the stepping loop\<close>

lemma IsPcProcessed_runnable: "runnable s p \<Longrightarrow> IsPcProcessed s p = Inr False"
  by (simp add: runnable_def IsPcProcessed_def)

lemma MarkPcProcessed_runnable: "runnable s p \<Longrightarrow> MarkPcProcessed s p = Inr (mark s p)"
  by (simp add: runnable_def MarkPcProcessed_def mark_def)

lemma mark_simps [simp]:
  "bytecode (mark s p) = bytecode s"
  "input (mark s p) = input s"
  "input_index (mark s p) = input_index s"
  "active_threads (mark s p) = active_threads s"
  "blocked_threads (mark s p) = blocked_threads s"
  "best_match (mark s p) = best_match s"
  "pc_last_input_index (mark s p) = (pc_last_input_index s)[nat p := input_index s]"
  by (simp_all add: mark_def)

lemma RunActiveThread_processed:
  "IsPcProcessed s (pc t) = Inr True \<Longrightarrow> RunActiveThread s t = Some (Inr s)"
  by (subst RunActiveThread.simps) simp

lemma RunActiveThread_error:
  "IsPcProcessed s (pc t) = Inl e \<Longrightarrow> RunActiveThread s t = Some (Inl e)"
  by (subst RunActiveThread.simps) simp

lemma RunActiveThread_CONSUME_RANGE:
  "runnable s (pc t) \<Longrightarrow> pc t < int (length (bytecode s)) \<Longrightarrow>
   bytecode s ! nat (pc t) = CONSUME_RANGE lo hi \<Longrightarrow>
   RunActiveThread s t =
     Some (Inr ((mark s (pc t))\<lparr>blocked_threads := blocked_threads s @ [t]\<rparr>))"
  by (subst RunActiveThread.simps)
     (simp add: IsPcProcessed_runnable MarkPcProcessed_runnable runnable_def)

lemma RunActiveThread_FORK:
  "runnable s (pc t) \<Longrightarrow> pc t < int (length (bytecode s)) \<Longrightarrow>
   bytecode s ! nat (pc t) = FORK target \<Longrightarrow>
   RunActiveThread s t =
     RunActiveThread
       ((mark s (pc t))\<lparr>active_threads := active_threads s @ [t\<lparr>pc := target\<rparr>]\<rparr>)
       (t\<lparr>pc := pc t + 1\<rparr>)"
  by (subst RunActiveThread.simps)
     (simp add: IsPcProcessed_runnable MarkPcProcessed_runnable runnable_def)

lemma RunActiveThread_JMP:
  "runnable s (pc t) \<Longrightarrow> pc t < int (length (bytecode s)) \<Longrightarrow>
   bytecode s ! nat (pc t) = JMP target \<Longrightarrow>
   RunActiveThread s t = RunActiveThread (mark s (pc t)) (t\<lparr>pc := target\<rparr>)"
  by (subst RunActiveThread.simps)
     (simp add: IsPcProcessed_runnable MarkPcProcessed_runnable runnable_def)

lemma RunActiveThread_ACCEPT:
  "runnable s (pc t) \<Longrightarrow> pc t < int (length (bytecode s)) \<Longrightarrow>
   bytecode s ! nat (pc t) = ACCEPT \<Longrightarrow>
   RunActiveThread s t =
     Some (Inr ((mark s (pc t))\<lparr>best_match :=
                  Some \<lparr>range_begin = match_begin t, range_end = input_index s\<rparr>,
                active_threads := []\<rparr>))"
  by (subst RunActiveThread.simps)
     (simp add: IsPcProcessed_runnable MarkPcProcessed_runnable runnable_def)

lemma RunActiveThread_induct [consumes 1, case_names error processed no_instruction consume fork jmp accept]:
  assumes "RunActiveThread s t = Some r"
    and "\<And>s t e. IsPcProcessed s (pc t) = Inl e \<Longrightarrow> P s t (Inl e)"
    and "\<And>s t. IsPcProcessed s (pc t) = Inr True \<Longrightarrow> P s t (Inr s)"
    and "\<And>s t. runnable s (pc t) \<Longrightarrow> int (length (bytecode s)) \<le> pc t \<Longrightarrow>
           P s t (Inl OutOfBounds)"
    and "\<And>s t lo hi. runnable s (pc t) \<Longrightarrow> pc t < int (length (bytecode s)) \<Longrightarrow>
           bytecode s ! nat (pc t) = CONSUME_RANGE lo hi \<Longrightarrow>
           P s t (Inr ((mark s (pc t))\<lparr>blocked_threads := blocked_threads s @ [t]\<rparr>))"
    and "\<And>s t target r. runnable s (pc t) \<Longrightarrow> pc t < int (length (bytecode s)) \<Longrightarrow>
           bytecode s ! nat (pc t) = FORK target \<Longrightarrow>
           P ((mark s (pc t))\<lparr>active_threads := active_threads s @ [t\<lparr>pc := target\<rparr>]\<rparr>)
             (t\<lparr>pc := pc t + 1\<rparr>) r \<Longrightarrow>
           P s t r"
    and "\<And>s t target r. runnable s (pc t) \<Longrightarrow> pc t < int (length (bytecode s)) \<Longrightarrow>
           bytecode s ! nat (pc t) = JMP target \<Longrightarrow>
           P (mark s (pc t)) (t\<lparr>pc := target\<rparr>) r \<Longrightarrow> P s t r"
    and "\<And>s t. runnable s (pc t) \<Longrightarrow> pc t < int (length (bytecode s)) \<Longrightarrow>
           bytecode s ! nat (pc t) = ACCEPT \<Longrightarrow>
           P s t (Inr ((mark s (pc t))\<lparr>best_match :=
                  Some \<lparr>range_begin = match_begin t, range_end = input_index s\<rparr>,
                active_threads := []\<rparr>))"
  shows "P s t r"
proof (rule RunActiveThread.raw_induct[OF _ assms(1)])
  fix f and s :: "'a NfaInterpreter" and t r
  assume 1: "\<And>s t r. f s t = Some r \<Longrightarrow> P s t r"
    "(case IsPcProcessed s (pc t) of
        Inl e \<Rightarrow> Some (Inl e)
      | Inr processed \<Rightarrow>
          if processed then Some (Inr s)
          else
          (case MarkPcProcessed s (pc t) of
             Inl e \<Rightarrow> Some (Inl e)
           | Inr s1 \<Rightarrow>
               if pc t < 0 \<or> int (length (bytecode s1)) \<le> pc t then Some (Inl OutOfBounds)
               else
                 (case bytecode s1 ! nat (pc t) of
                    CONSUME_RANGE lo hi \<Rightarrow>
                      Some (Inr (s1\<lparr>blocked_threads := blocked_threads s1 @ [t]\<rparr>))
                  | FORK target \<Rightarrow>
                      f (s1\<lparr>active_threads := active_threads s1 @ [t\<lparr>pc := target\<rparr>]\<rparr>)
                        (t\<lparr>pc := pc t + 1\<rparr>)
                  | JMP target \<Rightarrow> f s1 (t\<lparr>pc := target\<rparr>)
                  | ACCEPT \<Rightarrow>
                      Some (Inr (s1\<lparr>best_match :=
                                       Some \<lparr>range_begin = match_begin t,
                                             range_end = input_index s1\<rparr>,
                                     active_threads := []\<rparr>))))) = Some r"
  show "P s t r"
  proof (cases "IsPcProcessed s (pc t)")
    case (Inl e)
    with 1(2) assms(2)[OF Inl] show ?thesis by simp
  next
    case (Inr b)
    show ?thesis
    proof (cases b)
      case True
      with Inr 1(2) assms(3)[of s t] show ?thesis by simp
    next
      case False
      with Inr have run: "runnable s (pc t)"
        by (auto simp: IsPcProcessed_def runnable_def split: if_splits)
      note mk = MarkPcProcessed_runnable[OF run]
      show ?thesis
      proof (cases "int (length (bytecode s)) \<le> pc t")
        case True
        with 1(2) Inr False mk run assms(4)[OF run True] show ?thesis
          by (simp add: runnable_def)
      next
        case nb: False
        then have lt: "pc t < int (length (bytecode s))" by simp
        from run have ge: "\<not> pc t < 0" by (simp add: runnable_def)
        show ?thesis
        proof (cases "bytecode s ! nat (pc t)")
          case (CONSUME_RANGE lo hi)
          with 1(2) Inr False mk lt ge assms(5)[OF run lt CONSUME_RANGE] show ?thesis
            by simp
        next
          case (FORK target)
          with 1(2) Inr False mk lt ge
          have "f ((mark s (pc t))\<lparr>active_threads := active_threads s @ [t\<lparr>pc := target\<rparr>]\<rparr>)
                  (t\<lparr>pc := pc t + 1\<rparr>) = Some r" by simp
          from assms(6)[OF run lt FORK 1(1)[OF this]] show ?thesis .
        next
          case (JMP target)
          with 1(2) Inr False mk lt ge
          have "f (mark s (pc t)) (t\<lparr>pc := target\<rparr>) = Some r" by simp
          from assms(7)[OF run lt JMP 1(1)[OF this]] show ?thesis .
        next
          case ACCEPT
          with 1(2) Inr False mk lt ge assms(8)[OF run lt ACCEPT] show ?thesis
            by simp
        qed
      qed
    qed
  qed
qed

lemma RunActiveThread_no_instruction:
  "runnable s (pc t) \<Longrightarrow> int (length (bytecode s)) \<le> pc t \<Longrightarrow>
   RunActiveThread s t = Some (Inl OutOfBounds)"
  by (subst RunActiveThread.simps)
     (simp add: IsPcProcessed_runnable MarkPcProcessed_runnable)

lemma IsPcProcessed_cases:
  obtains e where "IsPcProcessed s p = Inl e"
  | "IsPcProcessed s p = Inr True"
  | "runnable s p"
proof -
  have "(\<exists>e. IsPcProcessed s p = Inl e) \<or> IsPcProcessed s p = Inr True \<or> runnable s p"
    by (auto simp: IsPcProcessed_def runnable_def)
  with that show thesis by blast
qed

lemma length_filter_update_less:
  "i < length xs \<Longrightarrow> P (xs ! i) \<Longrightarrow> \<not> P v \<Longrightarrow>
   length (filter P (xs[i := v])) < length (filter P xs)"
proof (induction xs arbitrary: i)
  case Nil
  then show ?case by simp
next
  case (Cons x xs)
  show ?case
  proof (cases i)
    case 0
    with Cons.prems show ?thesis by simp
  next
    case (Suc j)
    with Cons.prems Cons.IH[of j] show ?thesis by simp
  qed
qed

lemma unprocessed_mark: "runnable s p \<Longrightarrow> unprocessed (mark s p) < unprocessed s"
  unfolding unprocessed_def runnable_def mark_simps
  by (rule length_filter_update_less) auto

lemma unprocessed_active [simp]:
  "unprocessed (s\<lparr>active_threads := a\<rparr>) = unprocessed s"
  by (simp add: unprocessed_def)

lemma unprocessed_blocked [simp]:
  "unprocessed (s\<lparr>blocked_threads := a\<rparr>) = unprocessed s"
  by (simp add: unprocessed_def)

lemma unprocessed_best [simp]:
  "unprocessed (s\<lparr>best_match := a\<rparr>) = unprocessed s"
  by (simp add: unprocessed_def)

lemma RunActiveThread_returns: "\<exists>r. RunActiveThread s t = Some r"
proof (induction "unprocessed s" arbitrary: s t rule: less_induct)
  case less
  show ?case
  proof (cases s "pc t" rule: IsPcProcessed_cases)
    case (1 e)
    then show ?thesis by (simp add: RunActiveThread_error)
  next
    case 2
    then show ?thesis by (simp add: RunActiveThread_processed)
  next
    case run: 3
    show ?thesis
    proof (cases "int (length (bytecode s)) \<le> pc t")
      case True
      with run show ?thesis by (simp add: RunActiveThread_no_instruction)
    next
      case False
      then have lt: "pc t < int (length (bytecode s))" by simp
      show ?thesis
      proof (cases "bytecode s ! nat (pc t)")
        case (CONSUME_RANGE lo hi)
        with run lt show ?thesis by (simp add: RunActiveThread_CONSUME_RANGE)
      next
        case (FORK target)
        have "unprocessed
                ((mark s (pc t))\<lparr>active_threads := active_threads s @ [t\<lparr>pc := target\<rparr>]\<rparr>)
              < unprocessed s"
          using unprocessed_mark[OF run] by simp
        from less[OF this] show ?thesis
          by (simp add: RunActiveThread_FORK[OF run lt FORK])
      next
        case (JMP target)
        from less[OF unprocessed_mark[OF run]] show ?thesis
          by (simp add: RunActiveThread_JMP[OF run lt JMP])
      next
        case ACCEPT
        with run lt show ?thesis by (simp add: RunActiveThread_ACCEPT)
      qed
    qed
  qed
qed

lemma RunActiveThread_frame:
  assumes "RunActiveThread s t = Some (Inr s')"
  shows "bytecode s' = bytecode s \<and> input s' = input s \<and> input_index s' = input_index s \<and>
         length (pc_last_input_index s') = length (pc_last_input_index s)"
  using assms
  by (induction s t "Inr s' :: error + 'a NfaInterpreter" rule: RunActiveThread_induct) auto

lemma RunActiveThread_progress:
  assumes "RunActiveThread s t = Some (Inr s')"
  shows "s' = s \<or> unprocessed s' < unprocessed s"
  using assms
proof (induction s t "Inr s' :: error + 'a NfaInterpreter" rule: RunActiveThread_induct)
  case (fork s t target)
  with unprocessed_mark[of s "pc t"] show ?case by auto
next
  case (jmp s t target)
  with unprocessed_mark[of s "pc t"] show ?case by auto
next
  case (consume s t lo hi)
  with unprocessed_mark[of s "pc t"] show ?case by auto
next
  case (accept s t)
  with unprocessed_mark[of s "pc t"] show ?case by auto
qed auto

lemma RunActiveThreads_empty:
  "active_threads s = [] \<Longrightarrow> RunActiveThreads s = Some (Inr s)"
  by (subst RunActiveThreads.simps) simp

lemma RunActiveThreads_pop:
  "active_threads s \<noteq> [] \<Longrightarrow>
   RunActiveThreads s =
     (case RunActiveThread (s\<lparr>active_threads := butlast (active_threads s)\<rparr>)
             (last (active_threads s)) of
        None \<Rightarrow> None
      | Some (Inl e) \<Rightarrow> Some (Inl e)
      | Some (Inr s1) \<Rightarrow> RunActiveThreads s1)"
  by (subst RunActiveThreads.simps) simp

lemma RunActiveThreads_returns: "\<exists>r. RunActiveThreads s = Some r"
proof (induction s rule: wf_induct_rule[OF wf_measures[of "[unprocessed, \<lambda>s. length (active_threads s)]"]])
  case (1 s)
  show ?case
  proof (cases "active_threads s = []")
    case True
    then show ?thesis by (simp add: RunActiveThreads_empty)
  next
    case False
    let ?s0 = "s\<lparr>active_threads := butlast (active_threads s)\<rparr>"
    obtain r where r: "RunActiveThread ?s0 (last (active_threads s)) = Some r"
      using RunActiveThread_returns by blast
    show ?thesis
    proof (cases r)
      case (Inl e)
      with r False show ?thesis by (simp add: RunActiveThreads_pop)
    next
      case (Inr s1)
      with r RunActiveThread_progress[of ?s0 _ s1]
      have "s1 = ?s0 \<or> unprocessed s1 < unprocessed s" by simp
      with False have "(s1, s) \<in> measures [unprocessed, \<lambda>s. length (active_threads s)]"
        by auto
      from 1[OF this] Inr r False show ?thesis by (simp add: RunActiveThreads_pop)
    qed
  qed
qed

lemma RunActiveThreads_induct [consumes 1, case_names empty error step]:
  assumes "RunActiveThreads s = Some r"
    and "\<And>s. active_threads s = [] \<Longrightarrow> P s (Inr s)"
    and "\<And>s e. active_threads s \<noteq> [] \<Longrightarrow>
           RunActiveThread (s\<lparr>active_threads := butlast (active_threads s)\<rparr>)
             (last (active_threads s)) = Some (Inl e) \<Longrightarrow> P s (Inl e)"
    and "\<And>s s1 r. active_threads s \<noteq> [] \<Longrightarrow>
           RunActiveThread (s\<lparr>active_threads := butlast (active_threads s)\<rparr>)
             (last (active_threads s)) = Some (Inr s1) \<Longrightarrow> P s1 r \<Longrightarrow> P s r"
  shows "P s r"
proof (rule RunActiveThreads.raw_induct[OF _ assms(1)])
  fix f and s :: "'a NfaInterpreter" and r
  assume IH: "\<And>s r. f s = Some r \<Longrightarrow> P s r"
    and eq: "(if active_threads s \<noteq> [] then
        (case RunActiveThread (s\<lparr>active_threads := butlast (active_threads s)\<rparr>)
                (last (active_threads s)) of
           None \<Rightarrow> None
         | Some (Inl e) \<Rightarrow> Some (Inl e)
         | Some (Inr s1) \<Rightarrow> f s1)
      else Some (Inr s)) = Some r"
  show "P s r"
  proof (cases "active_threads s = []")
    case True
    with eq assms(2)[OF True] show ?thesis by simp
  next
    case False
    from eq False obtain r1 where
      r1: "RunActiveThread (s\<lparr>active_threads := butlast (active_threads s)\<rparr>)
             (last (active_threads s)) = Some r1"
      by (auto split: option.splits)
    show ?thesis
    proof (cases r1)
      case (Inl e)
      with eq False r1 assms(3)[OF False, of e] show ?thesis by simp
    next
      case (Inr s1)
      with eq False r1 have "f s1 = Some r" by simp
      from assms(4)[OF False r1[unfolded Inr] IH[OF this]] show ?thesis .
    qed
  qed
qed

lemma RunActiveThreads_frame:
  assumes "RunActiveThreads s = Some r" and "r = Inr s'"
  shows "bytecode s' = bytecode s \<and> input s' = input s \<and> input_index s' = input_index s \<and>
         length (pc_last_input_index s') = length (pc_last_input_index s) \<and>
         active_threads s' = []"
  using assms
proof (induction arbitrary: s' rule: RunActiveThreads_induct)
  case (empty s)
  then show ?case by simp
next
  case (error s e)
  then show ?case by simp
next
  case (step s s1 r)
  from step(3)[OF step(4)] RunActiveThread_frame[OF step(2)] show ?case by simp
qed

lemma is_consume_iff: "is_consume i \<longleftrightarrow> (\<exists>lo hi. i = CONSUME_RANGE lo hi)"
  by (cases i) (simp_all add: is_consume_def)

lemma FlushBlockedThreads_loop_eq:
  "j \<le> length (blocked_threads s) \<Longrightarrow> blocked_ok s \<Longrightarrow>
   FlushBlockedThreads_loop s c j =
     Inr (s\<lparr>active_threads := active_threads s @
              map advance (filter (consumes (bytecode s) c) (rev (take j (blocked_threads s))))\<rparr>)"
proof (induction j arbitrary: s)
  case 0
  then show ?case by simp
next
  case (Suc j)
  let ?t = "blocked_threads s ! j"
  from Suc.prems have j: "j < length (blocked_threads s)" by simp
  with Suc.prems(2) have ok: "0 \<le> pc ?t" "pc ?t < int (length (bytecode s))"
    "is_consume (bytecode s ! nat (pc ?t))"
    by (simp_all add: blocked_ok_def list_all_length)
  then obtain lo hi where ins: "bytecode s ! nat (pc ?t) = CONSUME_RANGE lo hi"
    by (auto simp: is_consume_iff)
  note [simp del] = FlushBlockedThreads_loop.simps(2)
  have unfold: "FlushBlockedThreads_loop s c (Suc j) =
      FlushBlockedThreads_loop
        (if lo \<le> c \<and> c \<le> hi
         then s\<lparr>active_threads := active_threads s @ [?t\<lparr>pc := pc ?t + 1\<rparr>]\<rparr> else s) c j"
    using j ok ins by (simp add: FlushBlockedThreads_loop.simps(2) Let_def)
  have tk: "rev (take (Suc j) (blocked_threads s)) = ?t # rev (take j (blocked_threads s))"
    using j by (simp add: take_Suc_conv_app_nth)
  let ?s' = "s\<lparr>active_threads := active_threads s @ [?t\<lparr>pc := pc ?t + 1\<rparr>]\<rparr>"
  show ?case
  proof (cases "lo \<le> c \<and> c \<le> hi")
    case True
    then have e: "(if lo \<le> c \<and> c \<le> hi then ?s' else s) = ?s'" by simp
    have step: "FlushBlockedThreads_loop s c (Suc j) = FlushBlockedThreads_loop ?s' c j"
      by (simp only: unfold e)
    have ct: "consumes (bytecode s) c ?t" using True ins by (simp add: consumes_def)
    have "blocked_ok ?s'" using Suc.prems(2) by (simp add: blocked_ok_def)
    with Suc.IH[of ?s'] j
    have "FlushBlockedThreads_loop ?s' c j =
       Inr (?s'\<lparr>active_threads := active_threads ?s' @
              map advance (filter (consumes (bytecode s) c) (rev (take j (blocked_threads s))))\<rparr>)"
      by simp
    with step ct show ?thesis
      by (simp add: tk advance_def[of ?t])
  next
    case False
    then have e: "(if lo \<le> c \<and> c \<le> hi then ?s' else s) = s" by simp
    have step: "FlushBlockedThreads_loop s c (Suc j) = FlushBlockedThreads_loop s c j"
      by (simp only: unfold e)
    from False have ct: "\<not> consumes (bytecode s) c ?t" using ins by (simp add: consumes_def)
    with step Suc.IH[of s] Suc.prems j show ?thesis
      by (simp add: tk)
  qed
qed

lemma FlushBlockedThreads_eq:
  "blocked_ok s \<Longrightarrow>
   FlushBlockedThreads s c =
     Inr (s\<lparr>active_threads := active_threads s @
              map advance (filter (consumes (bytecode s) c) (rev (blocked_threads s))),
            blocked_threads := []\<rparr>)"
  by (simp add: FlushBlockedThreads_def FlushBlockedThreads_loop_eq)

lemma FindNextMatch_loop_exit:
  "\<not> (input_index s \<noteq> int (length (input s)) \<and>
       \<not> (best_match s \<noteq> None \<and> blocked_threads s = [])) \<Longrightarrow>
   FindNextMatch_loop s = Some (Inr s)"
  by (subst FindNextMatch_loop.simps) auto

lemma FindNextMatch_loop_iterate:
  "searching s \<Longrightarrow> 0 \<le> input_index s \<Longrightarrow> active_threads s = [] \<Longrightarrow>
   FindNextMatch_loop s =
     (case FlushBlockedThreads (seed s) (next_char s) of
        Inl e \<Rightarrow> Some (Inl e)
      | Inr s3 \<Rightarrow>
          (case RunActiveThreads s3 of
             None \<Rightarrow> None
           | Some (Inl e) \<Rightarrow> Some (Inl e)
           | Some (Inr s4) \<Rightarrow> FindNextMatch_loop s4))"
  by (subst FindNextMatch_loop.simps)
     (auto simp: searching_def seed_def next_char_def Let_def)

lemma FlushBlockedThreads_loop_frame:
  "FlushBlockedThreads_loop s c j = Inr s' \<Longrightarrow>
   bytecode s' = bytecode s \<and> input s' = input s \<and> input_index s' = input_index s \<and>
   pc_last_input_index s' = pc_last_input_index s \<and> best_match s' = best_match s \<and>
   blocked_threads s' = blocked_threads s"
proof (induction j arbitrary: s)
  case 0
  then show ?case by simp
next
  case (Suc j)
  from Suc.prems show ?case
    by (auto simp: Let_def split: if_splits RegExpInstruction.splits dest!: Suc.IH)
qed

lemma FlushBlockedThreads_frame:
  "FlushBlockedThreads s c = Inr s' \<Longrightarrow>
   bytecode s' = bytecode s \<and> input s' = input s \<and> input_index s' = input_index s \<and>
   pc_last_input_index s' = pc_last_input_index s \<and> best_match s' = best_match s \<and>
   blocked_threads s' = []"
  by (auto simp: FlushBlockedThreads_def split: sum.splits dest!: FlushBlockedThreads_loop_frame)

lemma seed_frame [simp]:
  "bytecode (seed s) = bytecode s" "input (seed s) = input s"
  "input_index (seed s) = input_index s + 1"
  "pc_last_input_index (seed s) = pc_last_input_index s"
  "best_match (seed s) = best_match s" "blocked_threads (seed s) = blocked_threads s"
  by (simp_all add: seed_def)

lemma FindNextMatch_loop_returns: "\<exists>r. FindNextMatch_loop s = Some r"
proof (induction "nat (int (length (input s)) - input_index s)" arbitrary: s rule: less_induct)
  case less
  let ?cond = "input_index s \<noteq> int (length (input s)) \<and>
       \<not> (best_match s \<noteq> None \<and> blocked_threads s = [])"
  show ?case
  proof (cases ?cond)
    case False
    then show ?thesis using FindNextMatch_loop_exit[of s] by blast
  next
    case True
    show ?thesis
    proof (cases "active_threads s \<noteq> [] \<or> input_index s < 0 \<or>
                  int (length (input s)) \<le> input_index s")
      case True
      with \<open>?cond\<close> show ?thesis
        by (subst FindNextMatch_loop.simps) auto
    next
      case False
      with True have pre: "searching s" "0 \<le> input_index s" "active_threads s = []"
        by (auto simp: searching_def)
      note it = FindNextMatch_loop_iterate[OF pre]
      show ?thesis
      proof (cases "FlushBlockedThreads (seed s) (next_char s)")
        case (Inl e)
        with it show ?thesis by simp
      next
        case (Inr s3)
        obtain r where r: "RunActiveThreads s3 = Some r"
          using RunActiveThreads_returns by blast
        show ?thesis
        proof (cases r)
          case (Inl e)
          with it Inr r show ?thesis by simp
        next
          case s4: (Inr s4)
          from RunActiveThreads_frame[OF r s4] FlushBlockedThreads_frame[OF Inr]
          have "input s4 = input s" "input_index s4 = input_index s + 1" by simp_all
          with pre have "nat (int (length (input s4)) - input_index s4)
                         < nat (int (length (input s)) - input_index s)"
            by (simp add: searching_def)
          from less[OF this] it Inr r s4 show ?thesis by simp
        qed
      qed
    qed
  qed
qed

lemma FindNextMatch_returns: "\<exists>r. FindNextMatch s = Some r"
proof (cases "active_threads s \<noteq> [] \<or> blocked_threads s \<noteq> [] \<or> best_match s \<noteq> None")
  case True
  then show ?thesis by (auto simp: FindNextMatch_def Let_def)
next
  case False
  let ?s2 = "s\<lparr>pc_last_input_index := replicate (length (pc_last_input_index s)) (- 1),
               active_threads := [\<lparr>pc = 0, match_begin = input_index s\<rparr>]\<rparr>"
  obtain r where r: "RunActiveThreads ?s2 = Some r"
    using RunActiveThreads_returns by blast
  show ?thesis
  proof (cases r)
    case (Inl e)
    with r False show ?thesis by (simp add: FindNextMatch_def Let_def)
  next
    case (Inr s3)
    obtain r' where r': "FindNextMatch_loop s3 = Some r'"
      using FindNextMatch_loop_returns by blast
    with r Inr False show ?thesis
      by (cases r') (simp_all add: FindNextMatch_def Let_def)
  qed
qed

lemma FindMatches_loop_returns: "\<exists>r. FindMatches_loop s out k n = Some r"
proof (induction "nat (int (length out) - n)" arbitrary: s out n rule: less_induct)
  case less
  show ?case
  proof (cases "n = k")
    case True
    then show ?thesis by (subst FindMatches_loop.simps) simp
  next
    case False
    obtain r where r: "FindNextMatch s = Some r"
      using FindNextMatch_returns by blast
    show ?thesis
    proof (cases r)
      case (Inl e)
      with r False show ?thesis by (subst FindMatches_loop.simps) simp
    next
      case (Inr p)
      obtain m s1 where p: "p = (m, s1)" by (cases p)
      show ?thesis
      proof (cases m)
        case None
        with r Inr p False show ?thesis by (subst FindMatches_loop.simps) simp
      next
        case (Some mr)
        show ?thesis
        proof (cases "n < 0 \<or> int (length out) \<le> n")
          case True
          with r Inr p False Some show ?thesis by (subst FindMatches_loop.simps) auto
        next
          case inb: False
          show ?thesis
          proof (cases "SetInputIndex s1 (range_end mr)")
            case (Inl e)
            with r Inr p False Some inb show ?thesis
              by (subst FindMatches_loop.simps) simp
          next
            case s2: (Inr s2)
            from inb have "nat (int (length (out[nat n := mr])) - (n + 1))
                           < nat (int (length out) - n)" by simp
            from less[OF this, of s2] r Inr p False Some inb s2 show ?thesis
              by (subst FindMatches_loop.simps) simp
          qed
        qed
      qed
    qed
  qed
qed

lemma runnable_iff: "runnable s p \<longleftrightarrow> IsPcProcessed s p = Inr False"
  by (auto simp: IsPcProcessed_def runnable_def split: if_splits)

lemma outcome_fork:
  assumes "outcome (s1\<lparr>active_threads := active_threads s @ [u]\<rparr>) (t\<lparr>pc := q\<rparr>) s'"
    and "best_match s1 = best_match s" "blocked_threads s1 = blocked_threads s"
    "input_index s1 = input_index s"
  shows "outcome s t s'"
  using assms unfolding outcome_def by auto

lemma outcome_jmp:
  assumes "outcome s1 (t\<lparr>pc := q\<rparr>) s'"
    and "best_match s1 = best_match s" "blocked_threads s1 = blocked_threads s"
    "input_index s1 = input_index s" "active_threads s1 = active_threads s"
  shows "outcome s t s'"
  using assms unfolding outcome_def by auto

lemma RunActiveThread_outcome:
  assumes "RunActiveThread s t = Some r" and "r = Inr s'"
  shows "outcome s t s'"
  using assms
proof (induction arbitrary: s' rule: RunActiveThread_induct)
  case (error s t e)
  then show ?case by simp
next
  case (processed s t)
  then show ?case by (simp add: outcome_def)
next
  case (no_instruction s t)
  then show ?case by simp
next
  case (consume s t lo hi)
  then have s': "s' = (mark s (pc t))\<lparr>blocked_threads := blocked_threads s @ [t]\<rparr>" by simp
  have "blocked_threads s' = blocked_threads s @ [t] \<and> match_begin t = match_begin t"
    by (simp add: s')
  then have "\<exists>u. blocked_threads s' = blocked_threads s @ [u] \<and>
                 match_begin u = match_begin t" by blast
  moreover have "active_threads s' = active_threads s @ []" by (simp add: s')
  then have "\<exists>ext. active_threads s' = active_threads s @ ext" by blast
  moreover have "best_match s' = best_match s" by (simp add: s')
  ultimately show ?case unfolding outcome_def by blast
next
  case (fork s t target r)
  from fork(4)[OF fork(5)] show ?case by (rule outcome_fork) simp_all
next
  case (jmp s t target r)
  from jmp(4)[OF jmp(5)] show ?case by (rule outcome_jmp) simp_all
next
  case (accept s t)
  then show ?case by (auto simp: outcome_def)
qed

lemma FindNextMatch_loop_induct [consumes 1, case_names exit dcheck bounds flush_error run_error step]:
  assumes "FindNextMatch_loop s = Some r"
    and "\<And>s. \<not> (input_index s \<noteq> int (length (input s)) \<and>
                 \<not> (best_match s \<noteq> None \<and> blocked_threads s = [])) \<Longrightarrow> P s (Inr s)"
    and "\<And>s. input_index s \<noteq> int (length (input s)) \<Longrightarrow>
              \<not> (best_match s \<noteq> None \<and> blocked_threads s = []) \<Longrightarrow>
              active_threads s \<noteq> [] \<Longrightarrow> P s (Inl DCheckFailed)"
    and "\<And>s. input_index s \<noteq> int (length (input s)) \<Longrightarrow>
              \<not> (best_match s \<noteq> None \<and> blocked_threads s = []) \<Longrightarrow>
              active_threads s = [] \<Longrightarrow>
              input_index s < 0 \<or> int (length (input s)) \<le> input_index s \<Longrightarrow>
              P s (Inl OutOfBounds)"
    and "\<And>s e. searching s \<Longrightarrow> 0 \<le> input_index s \<Longrightarrow> active_threads s = [] \<Longrightarrow>
              FlushBlockedThreads (seed s) (next_char s) = Inl e \<Longrightarrow> P s (Inl e)"
    and "\<And>s s3 e. searching s \<Longrightarrow> 0 \<le> input_index s \<Longrightarrow> active_threads s = [] \<Longrightarrow>
              FlushBlockedThreads (seed s) (next_char s) = Inr s3 \<Longrightarrow>
              RunActiveThreads s3 = Some (Inl e) \<Longrightarrow> P s (Inl e)"
    and "\<And>s s3 s4 r. searching s \<Longrightarrow> 0 \<le> input_index s \<Longrightarrow> active_threads s = [] \<Longrightarrow>
              FlushBlockedThreads (seed s) (next_char s) = Inr s3 \<Longrightarrow>
              RunActiveThreads s3 = Some (Inr s4) \<Longrightarrow> P s4 r \<Longrightarrow> P s r"
  shows "P s r"
proof (rule FindNextMatch_loop.raw_induct[OF _ assms(1)])
  fix f and s :: "'a word NfaInterpreter" and r
  assume IH: "\<And>s r. f s = Some r \<Longrightarrow> P s r"
    and eq: "(if input_index s \<noteq> int (length (input s)) \<and>
         \<not> (best_match s \<noteq> None \<and> blocked_threads s = []) then
        if active_threads s \<noteq> [] then Some (Inl DCheckFailed)
        else if input_index s < 0 \<or> int (length (input s)) \<le> input_index s
        then Some (Inl OutOfBounds)
        else
          let input_char = (ucast (input s ! nat (input_index s)) :: uc16);
              s1 = s\<lparr>input_index := input_index s + 1\<rparr>;
              s2 = (if best_match s1 = None
                    then s1\<lparr>active_threads := active_threads s1 @
                              [\<lparr>pc = 0, match_begin = input_index s1\<rparr>]\<rparr>
                    else s1)
          in
            (case FlushBlockedThreads s2 input_char of
               Inl e \<Rightarrow> Some (Inl e)
             | Inr s3 \<Rightarrow>
                 (case RunActiveThreads s3 of
                    None \<Rightarrow> None
                  | Some (Inl e) \<Rightarrow> Some (Inl e)
                  | Some (Inr s4) \<Rightarrow> f s4))
      else Some (Inr s)) = Some r"
  let ?cond = "input_index s \<noteq> int (length (input s)) \<and>
         \<not> (best_match s \<noteq> None \<and> blocked_threads s = [])"
  show "P s r"
  proof (cases ?cond)
    case False
    with eq assms(2)[OF False] show ?thesis by auto
  next
    case True
    show ?thesis
    proof (cases "active_threads s \<noteq> []")
      case a: True
      with True eq assms(3)[of s] show ?thesis by auto
    next
      case a: False
      show ?thesis
      proof (cases "input_index s < 0 \<or> int (length (input s)) \<le> input_index s")
        case b: True
        with True a eq assms(4)[of s] show ?thesis by auto
      next
        case b: False
        with True a have pre: "searching s" "0 \<le> input_index s" "active_threads s = []"
          by (auto simp: searching_def)
        from eq True a b
        have eq': "(case FlushBlockedThreads (seed s) (next_char s) of
               Inl e \<Rightarrow> Some (Inl e)
             | Inr s3 \<Rightarrow>
                 (case RunActiveThreads s3 of
                    None \<Rightarrow> None
                  | Some (Inl e) \<Rightarrow> Some (Inl e)
                  | Some (Inr s4) \<Rightarrow> f s4)) = Some r"
          by (auto simp: seed_def next_char_def Let_def)
        show ?thesis
        proof (cases "FlushBlockedThreads (seed s) (next_char s)")
          case (Inl e)
          with eq' assms(5)[OF pre Inl] show ?thesis by simp
        next
          case (Inr s3)
          with eq' obtain r1 where r1: "RunActiveThreads s3 = Some r1"
            by (auto split: option.splits)
          show ?thesis
          proof (cases r1)
            case (Inl e)
            with eq' Inr r1 assms(6)[OF pre Inr, of e] show ?thesis by simp
          next
            case s4: (Inr s4)
            with eq' Inr r1 have "f s4 = Some r" by simp
            from assms(7)[OF pre Inr r1[unfolded s4] IH[OF this]] show ?thesis .
          qed
        qed
      qed
    qed
  qed
qed

lemma FindNextMatch_loop_index:
  assumes "FindNextMatch_loop s = Some r" and "r = Inr s'"
  shows "input_index s \<le> input_index s' \<and>
         (searching s \<longrightarrow> input_index s < input_index s') \<and>
         \<not> (input_index s' \<noteq> int (length (input s')) \<and>
            \<not> (best_match s' \<noteq> None \<and> blocked_threads s' = []))"
  using assms
proof (induction arbitrary: s' rule: FindNextMatch_loop_induct)
  case (exit s)
  then show ?case by (auto simp: searching_def)
next
  case (step s s3 s4 r)
  from RunActiveThreads_frame[OF step(5) refl] FlushBlockedThreads_frame[OF step(4)]
  have "input_index s4 = input_index s + 1" by simp
  with step(6)[OF step(7)] show ?case by simp
qed simp_all

lemma FindNextMatch_ACCEPT_first:
  assumes "clean s" and "bytecode s \<noteq> []" and "bytecode s ! 0 = ACCEPT"
    and "0 \<le> input_index s"
  shows "FindNextMatch s =
    Some (Inr (Some \<lparr>range_begin = input_index s, range_end = input_index s\<rparr>,
               s\<lparr>pc_last_input_index :=
                    (replicate (length (bytecode s)) (- 1))[0 := input_index s]\<rparr>))"
proof -
  let ?s1 = "s\<lparr>pc_last_input_index := replicate (length (bytecode s)) (- 1)\<rparr>"
  let ?t = "\<lparr>pc = 0, match_begin = input_index s\<rparr>"
  let ?s3 = "(mark ?s1 0)\<lparr>best_match :=
                  Some \<lparr>range_begin = input_index s, range_end = input_index s\<rparr>,
                active_threads := []\<rparr>"
  have run: "runnable ?s1 (pc ?t)" using assms by (simp add: runnable_def)
  have "RunActiveThread ?s1 ?t = Some (Inr ?s3)"
    using RunActiveThread_ACCEPT[OF run] assms by simp
  moreover have "?s1\<lparr>active_threads := []\<rparr> = ?s1"
    using assms(1) by (cases s) (simp add: clean_def)
  ultimately have ra: "RunActiveThreads (?s1\<lparr>active_threads := [?t]\<rparr>) = Some (Inr ?s3)"
    by (subst RunActiveThreads_pop) (simp_all add: RunActiveThreads_empty)
  note ra
  moreover have "FindNextMatch_loop ?s3 = Some (Inr ?s3)"
    by (rule FindNextMatch_loop_exit) (simp add: assms(1)[unfolded clean_def])
  ultimately show ?thesis
    using assms(1) by (simp add: FindNextMatch_def clean_def Let_def mark_def)
qed

lemma FindMatches_loop_ACCEPT_first:
  assumes "bytecode s \<noteq> []" and "bytecode s ! 0 = ACCEPT"
    and "0 \<le> input_index s" and "input_index s \<le> int (length (input s))"
    and "clean s" and "0 \<le> n" and "n \<le> k" and "k \<le> int (length out)"
  shows "\<exists>s'. FindMatches_loop s out k n =
     Some (Inr (s', take (nat n) out @
                    replicate (nat (k - n))
                      \<lparr>range_begin = input_index s, range_end = input_index s\<rparr> @
                    drop (nat k) out, k))"
  using assms
proof (induction "nat (k - n)" arbitrary: s out n)
  case 0
  then have "n = k" by simp
  with 0 show ?case by (subst FindMatches_loop.simps) simp
next
  case (Suc d)
  let ?m = "\<lparr>range_begin = input_index s, range_end = input_index s\<rparr>"
  let ?s1 = "s\<lparr>pc_last_input_index :=
                    (replicate (length (bytecode s)) (- 1))[0 := input_index s]\<rparr>"
  from Suc have nk: "n < k" by simp
  have fm: "FindNextMatch s = Some (Inr (Some ?m, ?s1))"
    using FindNextMatch_ACCEPT_first[of s] Suc.prems by simp
  have si: "SetInputIndex ?s1 (range_end ?m) = Inr ?s1"
    using Suc.prems by (simp add: SetInputIndex_def)
  have unfold: "FindMatches_loop s out k n =
      FindMatches_loop ?s1 (out[nat n := ?m]) k (n + 1)"
    using nk Suc.prems fm si by (subst FindMatches_loop.simps) simp
  have "\<exists>s'. FindMatches_loop ?s1 (out[nat n := ?m]) k (n + 1) =
     Some (Inr (s', take (nat (n + 1)) (out[nat n := ?m]) @
                    replicate (nat (k - (n + 1)))
                      \<lparr>range_begin = input_index ?s1, range_end = input_index ?s1\<rparr> @
                    drop (nat k) (out[nat n := ?m]), k))"
    using Suc.prems Suc.hyps(2) nk
    by (intro Suc.hyps(1)) (simp_all add: clean_def)
  moreover have "take (nat (n + 1)) (out[nat n := ?m]) = take (nat n) out @ [?m]"
    using Suc.prems nk
    by (simp add: nat_add_distrib take_Suc_conv_app_nth)
  moreover have "drop (nat k) (out[nat n := ?m]) = drop (nat k) out"
    using Suc.prems nk by simp
  moreover have "nat (k - n) = Suc (nat (k - (n + 1)))"
    using nk by simp
  then have "replicate (nat (k - n)) ?m = ?m # replicate (nat (k - (n + 1))) ?m"
    by simp
  ultimately show ?case using unfold by simp
qed

subsection \<open>The invariant of a search and the match driver\<close>

lemma well_formedI:
  assumes "valid_program code" and "stays_within code"
  shows "well_formed code"
proof -
  from assms(1) have ne: "code \<noteq> []" by (simp add: valid_program_def)
  have "case code ! i of
          CONSUME_RANGE lo hi \<Rightarrow> Suc i < length code
        | FORK target \<Rightarrow> 0 \<le> target \<and> target < int (length code) \<and> Suc i < length code
        | JMP target \<Rightarrow> 0 \<le> target \<and> target < int (length code)
        | ACCEPT \<Rightarrow> True" if i: "i < length code" for i
  proof -
    from assms(1) i have v: "case code ! i of
          CONSUME_RANGE lo hi \<Rightarrow> lo \<le> hi
        | FORK target \<Rightarrow> 0 \<le> target \<and> target < int (length code)
        | JMP target \<Rightarrow> 0 \<le> target \<and> target < int (length code)
        | ACCEPT \<Rightarrow> True"
      by (simp add: valid_program_def list_all_length)
    show ?thesis
    proof (cases "Suc i < length code")
      case True
      with v show ?thesis by (simp split: RegExpInstruction.splits)
    next
      case False
      with i have "i = length code - 1" by simp
      with ne have "code ! i = last code" by (simp add: last_conv_nth)
      with assms(2) v show ?thesis
        by (simp add: stays_within_def split: RegExpInstruction.splits)
    qed
  qed
  with ne show ?thesis by (simp add: well_formed_def list_all_iff)
qed

lemma well_formedD:
  assumes "well_formed code" and "0 \<le> p" and "p < int (length code)"
  shows "code ! nat p = CONSUME_RANGE lo hi \<Longrightarrow> p + 1 < int (length code)"
    and "code ! nat p = FORK target \<Longrightarrow>
           0 \<le> target \<and> target < int (length code) \<and> p + 1 < int (length code)"
    and "code ! nat p = JMP target \<Longrightarrow> 0 \<le> target \<and> target < int (length code)"
proof -
  from assms have "nat p < length code" by simp
  with assms(1) have *: "case code ! nat p of
               CONSUME_RANGE lo hi \<Rightarrow> Suc (nat p) < length code
             | FORK target \<Rightarrow> 0 \<le> target \<and> target < int (length code) \<and>
                 Suc (nat p) < length code
             | JMP target \<Rightarrow> 0 \<le> target \<and> target < int (length code)
             | ACCEPT \<Rightarrow> True"
    by (simp add: well_formed_def list_all_iff)
  show "code ! nat p = CONSUME_RANGE lo hi \<Longrightarrow> p + 1 < int (length code)"
    using * assms(2) by simp
  show "code ! nat p = FORK target \<Longrightarrow>
           0 \<le> target \<and> target < int (length code) \<and> p + 1 < int (length code)"
    using * assms(2) by auto
  show "code ! nat p = JMP target \<Longrightarrow> 0 \<le> target \<and> target < int (length code)"
    using * by simp
qed

lemma list_all_update:
  "list_all P xs \<Longrightarrow> P v \<Longrightarrow> list_all P (xs[i := v])"
  by (auto simp: list_all_iff dest!: set_update_subset_insert[THEN subsetD])

lemma search_inv_mark:
  "search_inv lo s \<Longrightarrow> search_inv lo (mark s p)"
  by (simp add: search_inv_def blocked_ok_def list_all_update)

lemma search_inv_runnable:
  assumes "search_inv lo s" and "thread_inv (bytecode s) lo (input_index s) t"
    and "\<not> runnable s (pc t)"
  shows "IsPcProcessed s (pc t) = Inr True"
proof -
  from assms(1,2) have r: "0 \<le> pc t" "nat (pc t) < length (pc_last_input_index s)"
    by (auto simp: search_inv_def thread_inv_def)
  from assms(1) have "list_all (\<lambda>x. x \<le> input_index s) (pc_last_input_index s)"
    by (simp add: search_inv_def)
  with r(2) have "pc_last_input_index s ! nat (pc t) \<le> input_index s"
    by (simp add: list_all_length)
  with r assms(3) show ?thesis
    by (simp add: runnable_def IsPcProcessed_def)
qed

lemma RunActiveThread_search_inv:
  assumes "RunActiveThread s t = Some r"
    and "search_inv lo s" and "thread_inv (bytecode s) lo (input_index s) t"
  shows "\<exists>s'. r = Inr s' \<and> search_inv lo s'"
  using assms
proof (induction rule: RunActiveThread_induct)
  case (error s t e)
  have "runnable s (pc t) \<or> IsPcProcessed s (pc t) = Inr True"
    using search_inv_runnable[OF error(2,3)] by blast
  with error(1) show ?case by (simp add: IsPcProcessed_runnable)
next
  case (processed s t)
  then show ?case by simp
next
  case (no_instruction s t)
  then show ?case by (simp add: thread_inv_def)
next
  case (consume s t lo' hi)
  from consume(4) have m: "search_inv lo (mark s (pc t))" by (rule search_inv_mark)
  from consume(3,5) have "is_consume (bytecode s ! nat (pc t))"
    by (simp add: is_consume_def)
  with m consume(5) show ?case
    by (simp add: search_inv_def blocked_ok_def thread_inv_def)
next
  case (fork s t target r)
  from fork(5) have m: "search_inv lo (mark s (pc t))" by (rule search_inv_mark)
  from fork(5,6) have vp: "well_formed (bytecode s)" "0 \<le> pc t"
    by (simp_all add: search_inv_def thread_inv_def)
  note d = well_formedD(2)[OF vp fork(2,3)]
  have "search_inv lo
          ((mark s (pc t))\<lparr>active_threads := active_threads s @ [t\<lparr>pc := target\<rparr>]\<rparr>)"
    using m d fork(6) by (simp add: search_inv_def blocked_ok_def thread_inv_def)
  moreover have "thread_inv (bytecode s) lo (input_index s) (t\<lparr>pc := pc t + 1\<rparr>)"
    using d fork(6) by (simp add: thread_inv_def)
  ultimately show ?case using fork(4) by simp
next
  case (jmp s t target r)
  from jmp(5) have m: "search_inv lo (mark s (pc t))" by (rule search_inv_mark)
  from jmp(5,6) have vp: "well_formed (bytecode s)" "0 \<le> pc t"
    by (simp_all add: search_inv_def thread_inv_def)
  note d = well_formedD(3)[OF vp jmp(2,3)]
  have "thread_inv (bytecode s) lo (input_index s) (t\<lparr>pc := target\<rparr>)"
    using d jmp(6) by (simp add: thread_inv_def)
  with m show ?case using jmp(4) by simp
next
  case (accept s t)
  from accept(4) have m: "search_inv lo (mark s (pc t))" by (rule search_inv_mark)
  with accept(5) show ?case
    by (simp add: search_inv_def blocked_ok_def thread_inv_def)
qed

lemma RunActiveThreads_search_inv:
  assumes "RunActiveThreads s = Some r" and "search_inv lo s"
  shows "\<exists>s'. r = Inr s' \<and> search_inv lo s' \<and> active_threads s' = []"
  using assms
proof (induction rule: RunActiveThreads_induct)
  case (empty s)
  then show ?case by simp
next
  case (error s e)
  let ?s0 = "s\<lparr>active_threads := butlast (active_threads s)\<rparr>"
  from error(3) have "list_all (thread_inv (bytecode s) lo (input_index s)) (active_threads s)"
    by (simp add: search_inv_def)
  with error(1) have "thread_inv (bytecode ?s0) lo (input_index ?s0) (last (active_threads s))"
    by (simp add: list_all_iff)
  moreover have "search_inv lo ?s0"
    using error(3) by (auto simp: search_inv_def blocked_ok_def list_all_iff dest: in_set_butlastD)
  ultimately show ?case using RunActiveThread_search_inv[OF error(2)] by simp
next
  case (step s s1 r)
  let ?s0 = "s\<lparr>active_threads := butlast (active_threads s)\<rparr>"
  from step(4) have "list_all (thread_inv (bytecode s) lo (input_index s)) (active_threads s)"
    by (simp add: search_inv_def)
  with step(1) have "thread_inv (bytecode ?s0) lo (input_index ?s0) (last (active_threads s))"
    by (simp add: list_all_iff)
  moreover have "search_inv lo ?s0"
    using step(4) by (auto simp: search_inv_def blocked_ok_def list_all_iff dest: in_set_butlastD)
  ultimately have "search_inv lo s1" using RunActiveThread_search_inv[OF step(2)] by simp
  from step(3)[OF this] show ?case .
qed

lemma search_inv_feed:
  assumes "search_inv lo s" and "searching s" and "active_threads s = []"
    and "FlushBlockedThreads (seed s) c = r"
  shows "\<exists>s3. r = Inr s3 \<and> search_inv lo s3"
proof -
  from assms(1) have bo: "blocked_ok (seed s)" by (simp add: search_inv_def blocked_ok_def)
  note eq = FlushBlockedThreads_eq[OF bo, of c]
  let ?adv = "map advance (filter (consumes (bytecode s) c) (rev (blocked_threads s)))"
  from assms(1) have vp: "well_formed (bytecode s)" by (simp add: search_inv_def)
  have adv: "list_all (thread_inv (bytecode s) lo (input_index s + 1)) ?adv"
    unfolding list_all_iff
  proof
    fix u assume "u \<in> set ?adv"
    then obtain t where t: "t \<in> set (blocked_threads s)" "consumes (bytecode s) c t"
      "u = advance t" by auto
    from assms(1) t(1) have ti: "thread_inv (bytecode s) lo (input_index s) t"
      by (simp add: search_inv_def list_all_iff)
    from t(2) obtain l h where "bytecode s ! nat (pc t) = CONSUME_RANGE l h"
      by (auto simp: consumes_def split: RegExpInstruction.splits)
    from well_formedD(1)[OF vp _ _ this] ti have "pc t + 1 < int (length (bytecode s))"
      by (simp add: thread_inv_def)
    with ti t(3) show "thread_inv (bytecode s) lo (input_index s + 1) u"
      by (simp add: thread_inv_def advance_def)
  qed
  have sd: "list_all (thread_inv (bytecode s) lo (input_index s + 1)) (active_threads (seed s))"
    using assms(1,3) by (simp add: seed_def search_inv_def thread_inv_def well_formed_def)
  have "search_inv lo ((seed s)\<lparr>active_threads := active_threads (seed s) @ ?adv,
            blocked_threads := []\<rparr>)"
    using assms(1,2) adv sd
    by (auto simp: search_inv_def searching_def blocked_ok_def list_all_iff)
  with eq assms(4) show ?thesis by simp
qed

lemma FindNextMatch_loop_search_inv:
  assumes "FindNextMatch_loop s = Some r" and "search_inv lo s" and "active_threads s = []"
  shows "\<exists>s'. r = Inr s' \<and> search_inv lo s' \<and> active_threads s' = []"
  using assms
proof (induction rule: FindNextMatch_loop_induct)
  case (exit s)
  then show ?case by simp
next
  case (dcheck s)
  then show ?case by simp
next
  case (bounds s)
  then show ?case by (auto simp: search_inv_def)
next
  case (flush_error s e)
  with search_inv_feed[OF flush_error(5,1,3,4)] show ?case by simp
next
  case (run_error s s3 e)
  from search_inv_feed[OF run_error(6,1,3,4)] have "search_inv lo s3" by simp
  from RunActiveThreads_search_inv[OF run_error(5) this] show ?case by simp
next
  case (step s s3 s4 r)
  from search_inv_feed[OF step(7,1,3,4)] have "search_inv lo s3" by simp
  from RunActiveThreads_search_inv[OF step(5) this]
  have "search_inv lo s4" "active_threads s4 = []" by simp_all
  from step(6)[OF this] show ?case .
qed

lemma FindNextMatch_loop_frame:
  assumes "FindNextMatch_loop s = Some r" and "r = Inr s'"
  shows "bytecode s' = bytecode s \<and> input s' = input s \<and>
         length (pc_last_input_index s') = length (pc_last_input_index s)"
  using assms
proof (induction arbitrary: s' rule: FindNextMatch_loop_induct)
  case (step s s3 s4 r)
  from step(6)[OF step(7)] RunActiveThreads_frame[OF step(5) refl]
    FlushBlockedThreads_frame[OF step(4)]
  show ?case by simp
qed simp_all

lemma FindNextMatch_spec:
  assumes "well_formed (bytecode s)" and "clean s"
    and "0 \<le> input_index s" and "input_index s \<le> int (length (input s))"
  shows "\<exists>m s'. FindNextMatch s = Some (Inr (m, s')) \<and> clean s' \<and>
           bytecode s' = bytecode s \<and> input s' = input s \<and>
           0 \<le> input_index s' \<and> input_index s' \<le> int (length (input s)) \<and>
           (\<forall>mr \<in> set_option m. input_index s \<le> range_begin mr \<and>
              range_begin mr \<le> range_end mr \<and> range_end mr \<le> int (length (input s)))"
proof -
  let ?s2 = "s\<lparr>pc_last_input_index := replicate (length (pc_last_input_index s)) (- 1),
               active_threads := [\<lparr>pc = 0, match_begin = input_index s\<rparr>]\<rparr>"
  let ?lo = "input_index s"
  have inv2: "search_inv ?lo ?s2"
    using assms
    by (simp add: search_inv_def clean_def blocked_ok_def thread_inv_def well_formed_def
          list_all_iff)
  obtain r where r: "RunActiveThreads ?s2 = Some r"
    using RunActiveThreads_returns by blast
  from RunActiveThreads_search_inv[OF r inv2] obtain s3 where
    s3: "r = Inr s3" "search_inv ?lo s3" "active_threads s3 = []" by blast
  obtain r' where r': "FindNextMatch_loop s3 = Some r'"
    using FindNextMatch_loop_returns by blast
  from FindNextMatch_loop_search_inv[OF r' s3(2,3)] obtain s4 where
    s4: "r' = Inr s4" "search_inv ?lo s4" by blast
  from RunActiveThreads_frame[OF r s3(1)] FindNextMatch_loop_frame[OF r' s4(1)]
  have fr: "bytecode s4 = bytecode s" "input s4 = input s"
    "length (pc_last_input_index s4) = length (pc_last_input_index s)" by simp_all
  have "FindNextMatch s =
      Some (Inr (best_match s4,
                 s4\<lparr>best_match := None, blocked_threads := [], active_threads := []\<rparr>))"
    using assms(2) r s3(1) r' s4(1) by (simp add: FindNextMatch_def clean_def Let_def)
  moreover have "clean (s4\<lparr>best_match := None, blocked_threads := [], active_threads := []\<rparr>)"
    using assms(2) fr by (simp add: clean_def)
  moreover have "\<forall>mr \<in> set_option (best_match s4). input_index s \<le> range_begin mr \<and>
              range_begin mr \<le> range_end mr \<and> range_end mr \<le> int (length (input s))"
    using s4(2) fr by (auto simp: search_inv_def)
  moreover have "0 \<le> input_index s4" "input_index s4 \<le> int (length (input s))"
    using s4(2) fr by (auto simp: search_inv_def)
  ultimately show ?thesis using fr by simp
qed

lemma FindNextMatch_clean_cong:
  assumes "clean s" and "clean s0" and "bytecode s0 = bytecode s" and "input s0 = input s"
    and "input_index s0 = input_index s"
  shows "FindNextMatch s = FindNextMatch s0"
proof -
  have "s\<lparr>pc_last_input_index := replicate (length (pc_last_input_index s)) (- 1)\<rparr> =
        s0\<lparr>pc_last_input_index := replicate (length (pc_last_input_index s0)) (- 1)\<rparr>"
    using assms by (cases s, cases s0) (simp add: clean_def)
  with assms(1,2) show ?thesis
    by (simp add: FindNextMatch_def clean_def Let_def)
qed

lemma found_at_FindNextMatch:
  assumes "clean s" and "bytecode s \<noteq> []"
    and "0 \<le> input_index s" and "input_index s \<le> int (length (input s))"
    and "FindNextMatch s = Some (Inr (m, s'))"
  shows "found_at (bytecode s) (input s) (input_index s) m"
proof -
  let ?s0 = "\<lparr>bytecode = bytecode s, input = input s, input_index = input_index s,
                pc_last_input_index = replicate (length (bytecode s)) (- 1),
                active_threads = [], blocked_threads = [], best_match = None\<rparr>"
  have new: "NfaInterpreter_new (bytecode s) (input s) (input_index s) = Inr ?s0"
    using assms(2,3,4) by (simp add: NfaInterpreter_new_def)
  have "FindNextMatch s = FindNextMatch ?s0"
    using assms(1) by (intro FindNextMatch_clean_cong) (simp_all add: clean_def)
  with assms(5) new show ?thesis by (simp add: found_at_def)
qed

lemma FindMatches_loop_done:
  "FindMatches_loop s out k k = Some (Inr (s, out, k))"
  by (subst FindMatches_loop.simps) simp

lemma FindMatches_loop_none:
  "n \<noteq> k \<Longrightarrow> FindNextMatch s = Some (Inr (None, s1)) \<Longrightarrow>
   FindMatches_loop s out k n = Some (Inr (s1, out, n))"
  by (subst FindMatches_loop.simps) simp

lemma FindMatches_loop_some:
  "n \<noteq> k \<Longrightarrow> FindNextMatch s = Some (Inr (Some m, s1)) \<Longrightarrow>
   0 \<le> n \<Longrightarrow> n < int (length out) \<Longrightarrow> SetInputIndex s1 (range_end m) = Inr s2 \<Longrightarrow>
   FindMatches_loop s out k n = FindMatches_loop s2 (out[nat n := m]) k (n + 1)"
  by (subst FindMatches_loop.simps) simp

lemma FindMatches_loop_spec:
  assumes "well_formed (bytecode s)" and "clean s"
    and "0 \<le> input_index s" and "input_index s \<le> int (length (input s))"
    and "0 \<le> n" and "n \<le> k" and "k \<le> int (length out)"
  shows "\<exists>s' out' n'. FindMatches_loop s out k n = Some (Inr (s', out', n')) \<and>
     n \<le> n' \<and> n' \<le> k \<and> length out' = length out \<and>
     (\<forall>i. i < nat n \<or> nat n' \<le> i \<longrightarrow> out' ! i = out ! i) \<and>
     (\<forall>i. nat n \<le> i \<and> i < nat n' \<longrightarrow>
        match_ok (bytecode s) (input s) (cursor (input_index s) (nat n) out' i) (out' ! i)) \<and>
     (n' < k \<longrightarrow>
        found_at (bytecode s) (input s) (cursor (input_index s) (nat n) out' (nat n')) None)"
  using assms
proof (induction "nat (k - n)" arbitrary: s out n)
  case 0
  then have "n = k" by simp
  then show ?case by (auto simp: FindMatches_loop_done)
next
  case (Suc d)
  then have nk: "n < k" "n \<noteq> k" by simp_all
  from Suc.prems(1) have ne: "bytecode s \<noteq> []" by (simp add: well_formed_def)
  from FindNextMatch_spec[OF Suc.prems(1-4)] obtain m s1 where
    fm: "FindNextMatch s = Some (Inr (m, s1))" and s1: "clean s1" "bytecode s1 = bytecode s"
      "input s1 = input s" "0 \<le> input_index s1" "input_index s1 \<le> int (length (input s))"
    and mr: "\<forall>mr \<in> set_option m. input_index s \<le> range_begin mr \<and>
              range_begin mr \<le> range_end mr \<and> range_end mr \<le> int (length (input s))"
    by blast
  note fa = found_at_FindNextMatch[OF Suc.prems(2) ne Suc.prems(3,4) fm]
  show ?case
  proof (cases m)
    case None
    with fm nk have "FindMatches_loop s out k n = Some (Inr (s1, out, n))"
      by (simp add: FindMatches_loop_none)
    with fa None nk show ?thesis by (auto simp: cursor_def)
  next
    case (Some m0)
    with mr have m0: "input_index s \<le> range_begin m0" "range_begin m0 \<le> range_end m0"
      "range_end m0 \<le> int (length (input s))" by simp_all
    let ?s2 = "s1\<lparr>input_index := range_end m0\<rparr>"
    let ?out1 = "out[nat n := m0]"
    have si: "SetInputIndex s1 (range_end m0) = Inr ?s2"
      using s1 by (simp add: SetInputIndex_def)
    have unfold: "FindMatches_loop s out k n = FindMatches_loop ?s2 ?out1 k (n + 1)"
      using FindMatches_loop_some[OF nk(2) fm[unfolded Some] Suc.prems(5) _ si]
        nk Suc.prems(7) by simp
    have "\<exists>s' out' n'. FindMatches_loop ?s2 ?out1 k (n + 1) = Some (Inr (s', out', n')) \<and>
       n + 1 \<le> n' \<and> n' \<le> k \<and> length out' = length ?out1 \<and>
       (\<forall>i. i < nat (n + 1) \<or> nat n' \<le> i \<longrightarrow> out' ! i = ?out1 ! i) \<and>
       (\<forall>i. nat (n + 1) \<le> i \<and> i < nat n' \<longrightarrow>
          match_ok (bytecode ?s2) (input ?s2)
            (cursor (input_index ?s2) (nat (n + 1)) out' i) (out' ! i)) \<and>
       (n' < k \<longrightarrow>
          found_at (bytecode ?s2) (input ?s2)
            (cursor (input_index ?s2) (nat (n + 1)) out' (nat n')) None)"
      using Suc.hyps(2) Suc.prems s1 m0 nk
      by (intro Suc.hyps(1)) (simp_all add: clean_def)
    then obtain s' out' n' where all:
      "FindMatches_loop ?s2 ?out1 k (n + 1) = Some (Inr (s', out', n')) \<and>
       n + 1 \<le> n' \<and> n' \<le> k \<and> length out' = length ?out1 \<and>
       (\<forall>i. i < nat (n + 1) \<or> nat n' \<le> i \<longrightarrow> out' ! i = ?out1 ! i) \<and>
       (\<forall>i. nat (n + 1) \<le> i \<and> i < nat n' \<longrightarrow>
          match_ok (bytecode ?s2) (input ?s2)
            (cursor (input_index ?s2) (nat (n + 1)) out' i) (out' ! i)) \<and>
       (n' < k \<longrightarrow>
          found_at (bytecode ?s2) (input ?s2)
            (cursor (input_index ?s2) (nat (n + 1)) out' (nat n')) None)"
      by blast
    from all have run: "FindMatches_loop ?s2 ?out1 k (n + 1) = Some (Inr (s', out', n'))"
      and n': "n + 1 \<le> n'" "n' \<le> k" and len: "length out' = length out"
      by simp_all
    from all have same: "i < nat (n + 1) \<or> nat n' \<le> i \<Longrightarrow> out' ! i = ?out1 ! i" for i
      by blast
    from all s1 have ok: "nat (n + 1) \<le> i \<Longrightarrow> i < nat n' \<Longrightarrow>
          match_ok (bytecode s) (input s) (cursor (range_end m0) (nat (n + 1)) out' i) (out' ! i)"
      for i by simp
    from all s1 have last: "n' < k \<Longrightarrow>
          found_at (bytecode s) (input s) (cursor (range_end m0) (nat (n + 1)) out' (nat n')) None"
      by simp
    have nn: "nat (n + 1) = Suc (nat n)" using Suc.prems(5) by simp
    have at_n: "out' ! nat n = m0"
      using same[of "nat n"] nn nk Suc.prems(5,7) by simp
    have cur: "\<And>i. Suc (nat n) \<le> i \<Longrightarrow>
        cursor (range_end m0) (Suc (nat n)) out' i = cursor (input_index s) (nat n) out' i"
      using at_n by (auto simp: cursor_def)
    have "\<forall>i. i < nat n \<or> nat n' \<le> i \<longrightarrow> out' ! i = out ! i"
    proof (intro allI impI)
      fix i assume "i < nat n \<or> nat n' \<le> i"
      with n' Suc.prems(5) have "(i < nat (n + 1) \<or> nat n' \<le> i) \<and> i \<noteq> nat n" by auto
      with same[of i] show "out' ! i = out ! i" by simp
    qed
    moreover have "\<forall>i. nat n \<le> i \<and> i < nat n' \<longrightarrow>
        match_ok (bytecode s) (input s) (cursor (input_index s) (nat n) out' i) (out' ! i)"
    proof (intro allI impI)
      fix i assume i: "nat n \<le> i \<and> i < nat n'"
      show "match_ok (bytecode s) (input s) (cursor (input_index s) (nat n) out' i) (out' ! i)"
      proof (cases "i = nat n")
        case True
        with fa Some m0 at_n show ?thesis by (simp add: match_ok_def cursor_def)
      next
        case False
        with i have "Suc (nat n) \<le> i" by simp
        with ok[of i] i cur[of i] nn show ?thesis by simp
      qed
    qed
    moreover have "n' < k \<longrightarrow>
        found_at (bytecode s) (input s) (cursor (input_index s) (nat n) out' (nat n')) None"
    proof
      assume "n' < k"
      from last[OF this] cur[of "nat n'"] n' nn Suc.prems(5)
      show "found_at (bytecode s) (input s) (cursor (input_index s) (nat n) out' (nat n')) None"
        by simp
    qed
    ultimately show ?thesis using unfold run n' len by simp
  qed
qed

lemma FindMatchesNfa_spec:
  fixes inp :: "'c::len word list"
  assumes "well_formed code" and "0 \<le> start" and "start \<le> int (length inp)"
    and "0 \<le> k" and "k \<le> int (length out)"
  shows "\<exists>out' n. FindMatchesNfa code inp start out k = Some (Inr (out', n)) \<and>
     0 \<le> n \<and> n \<le> k \<and> length out' = length out \<and>
     (\<forall>i. nat n \<le> i \<longrightarrow> out' ! i = out ! i) \<and>
     (\<forall>i < nat n. match_ok code inp (cursor start 0 out' i) (out' ! i)) \<and>
     (n < k \<longrightarrow> found_at code inp (cursor start 0 out' (nat n)) None)"
proof -
  let ?s = "\<lparr>bytecode = code, input = inp, input_index = start,
                pc_last_input_index = replicate (length code) (- 1),
                active_threads = [], blocked_threads = [], best_match = None\<rparr>"
  from assms(1) have ne: "code \<noteq> []" by (simp add: well_formed_def)
  have new: "NfaInterpreter_new code inp start = Inr ?s"
    using assms ne by (simp add: NfaInterpreter_new_def)
  have "\<exists>s' out' n'. FindMatches_loop ?s out k 0 = Some (Inr (s', out', n')) \<and>
     0 \<le> n' \<and> n' \<le> k \<and> length out' = length out \<and>
     (\<forall>i. i < nat 0 \<or> nat n' \<le> i \<longrightarrow> out' ! i = out ! i) \<and>
     (\<forall>i. nat 0 \<le> i \<and> i < nat n' \<longrightarrow>
        match_ok (bytecode ?s) (input ?s) (cursor (input_index ?s) (nat 0) out' i) (out' ! i)) \<and>
     (n' < k \<longrightarrow>
        found_at (bytecode ?s) (input ?s) (cursor (input_index ?s) (nat 0) out' (nat n')) None)"
    using assms by (intro FindMatches_loop_spec) (simp_all add: clean_def)
  then obtain s' out' n' where all:
    "FindMatches_loop ?s out k 0 = Some (Inr (s', out', n')) \<and>
     0 \<le> n' \<and> n' \<le> k \<and> length out' = length out \<and>
     (\<forall>i. i < nat 0 \<or> nat n' \<le> i \<longrightarrow> out' ! i = out ! i) \<and>
     (\<forall>i. nat 0 \<le> i \<and> i < nat n' \<longrightarrow>
        match_ok (bytecode ?s) (input ?s) (cursor (input_index ?s) (nat 0) out' i) (out' ! i)) \<and>
     (n' < k \<longrightarrow>
        found_at (bytecode ?s) (input ?s) (cursor (input_index ?s) (nat 0) out' (nat n')) None)"
    by blast
  then have "FindMatchesNfa code inp start out k = Some (Inr (out', n'))"
    using new by (simp add: FindMatchesNfa_def FindMatches_def)
  with all show ?thesis by simp
qed

lemma found_at_unique:
  "found_at code inp c m \<Longrightarrow> found_at code inp c m' \<Longrightarrow> m = m'"
  by (auto simp: found_at_def split: sum.splits option.splits)

lemma nth_list_update_same: "xs ! p = v \<Longrightarrow> (xs[q := v]) ! p = v"
  by (cases "q < length xs") (simp_all add: nth_list_update list_update_beyond not_less)

lemma RunActiveThread_marks:
  assumes "RunActiveThread s t = Some r" and "r = Inr s'"
    and "p < length (pc_last_input_index s)" and "pc_last_input_index s ! p = input_index s"
  shows "pc_last_input_index s' ! p = input_index s'"
  using assms
proof (induction arbitrary: s' rule: RunActiveThread_induct)
  case (error s t e)
  then show ?case by simp
next
  case (processed s t)
  then show ?case by simp
next
  case (no_instruction s t)
  then show ?case by simp
next
  case (consume s t lo hi)
  from consume(4) have "s' = (mark s (pc t))\<lparr>blocked_threads := blocked_threads s @ [t]\<rparr>"
    by simp
  then show ?case using nth_list_update_same[OF consume(6)] by simp
next
  case (fork s t target r)
  show ?case
  proof (rule fork(4)[OF fork(5)])
    show "p < length (pc_last_input_index
            ((mark s (pc t))\<lparr>active_threads := active_threads s @ [t\<lparr>pc := target\<rparr>]\<rparr>))"
      using fork(6) by simp
    show "pc_last_input_index
            ((mark s (pc t))\<lparr>active_threads := active_threads s @ [t\<lparr>pc := target\<rparr>]\<rparr>) ! p =
          input_index ((mark s (pc t))\<lparr>active_threads := active_threads s @ [t\<lparr>pc := target\<rparr>]\<rparr>)"
      using nth_list_update_same[OF fork(7)] by simp
  qed
next
  case (jmp s t target r)
  show ?case
  proof (rule jmp(4)[OF jmp(5)])
    show "p < length (pc_last_input_index (mark s (pc t)))" using jmp(6) by simp
    show "pc_last_input_index (mark s (pc t)) ! p = input_index (mark s (pc t))"
      using nth_list_update_same[OF jmp(7)] by simp
  qed
next
  case (accept s t)
  from accept(4) have "s' = (mark s (pc t))\<lparr>best_match :=
                  Some \<lparr>range_begin = match_begin t, range_end = input_index s\<rparr>,
                active_threads := []\<rparr>"
    by simp
  then show ?case using nth_list_update_same[OF accept(6)] by simp
qed

lemma RunActiveThreads_marks:
  assumes "RunActiveThreads s = Some r" and "r = Inr s'"
    and "p < length (pc_last_input_index s)" and "pc_last_input_index s ! p = input_index s"
  shows "pc_last_input_index s' ! p = input_index s'"
  using assms
proof (induction arbitrary: s' rule: RunActiveThreads_induct)
  case (empty s)
  then show ?case by simp
next
  case (error s e)
  then show ?case by simp
next
  case (step s s1 r)
  let ?s0 = "s\<lparr>active_threads := butlast (active_threads s)\<rparr>"
  have "p < length (pc_last_input_index ?s0)" "pc_last_input_index ?s0 ! p = input_index ?s0"
    using step(5,6) by simp_all
  from RunActiveThread_marks[OF step(2) refl this] RunActiveThread_frame[OF step(2)] step(5)
  have "p < length (pc_last_input_index s1)" "pc_last_input_index s1 ! p = input_index s1"
    by simp_all
  from step(3)[OF step(4) this] show ?case .
qed

lemma unprocessed_le: "unprocessed s \<le> length (pc_last_input_index s)"
  by (simp add: unprocessed_def)

subsection \<open>The number of threads\<close>

lemma length_filter_nth:
  "length (filter (\<lambda>i. P (xs ! i)) [0..<length xs]) = length (filter P xs)"
proof -
  have "filter P xs = filter P (map (nth xs) [0..<length xs])" by (simp add: map_nth)
  also have "\<dots> = map (nth xs) (filter (\<lambda>i. P (xs ! i)) [0..<length xs])"
    by (simp add: filter_map comp_def)
  finally show ?thesis by simp
qed

lemma length_filter_mono:
  "(\<And>x. x \<in> set xs \<Longrightarrow> P x \<Longrightarrow> Q x) \<Longrightarrow> length (filter P xs) \<le> length (filter Q xs)"
  by (induction xs) auto

lemma pending_forks_le: "pending_forks s \<le> length (filter is_fork (bytecode s))"
proof -
  have "pending_forks s \<le> length (filter (\<lambda>i. is_fork (bytecode s ! i)) [0..<length (bytecode s)])"
    unfolding pending_forks_def by (rule length_filter_mono) simp
  then show ?thesis by (simp add: length_filter_nth)
qed

lemma capacity_le:
  assumes "well_formed code"
  shows "capacity code \<le> length code"
proof -
  from assms have ne: "code \<noteq> []" by (simp add: well_formed_def)
  let ?p = "int (length code) - 1"
  from ne have p: "0 \<le> ?p" "?p < int (length code)" by (cases code; simp)+
  have lst: "last code = code ! nat ?p"
    using ne by (simp add: last_conv_nth nat_diff_distrib')
  have l: "\<not> is_consume (last code)" "\<not> is_fork (last code)"
    using well_formedD(1,2)[OF assms p] unfolding lst
    by (auto simp: is_consume_def is_fork_def split: RegExpInstruction.splits)
  have "length (filter is_consume code) + length (filter is_fork code) =
        length (filter (\<lambda>i. is_consume i \<or> is_fork i) code)"
    by (induction code)
       (auto simp: is_consume_def is_fork_def split: RegExpInstruction.splits)
  also have "filter (\<lambda>i. is_consume i \<or> is_fork i) code =
             filter (\<lambda>i. is_consume i \<or> is_fork i) (butlast code @ [last code])"
    by (simp only: append_butlast_last_id[OF ne])
  also have "\<dots> = filter (\<lambda>i. is_consume i \<or> is_fork i) (butlast code)"
    using l by simp
  also have "length \<dots> \<le> length (butlast code)" by (rule length_filter_le)
  finally have "length (filter is_consume code) + length (filter is_fork code)
      \<le> length code - 1" by simp
  moreover from ne have "0 < length code" by simp
  ultimately show ?thesis unfolding capacity_def by linarith
qed

lemma length_filter_upt_remove:
  assumes "p < n" and "P p" and "\<not> Q p" and "\<And>i. i \<noteq> p \<Longrightarrow> Q i = P i"
  shows "Suc (length (filter Q [0..<n])) = length (filter P [0..<n])"
proof -
  have d: "distinct (filter Q [0..<n])" "distinct (filter P [0..<n])" by simp_all
  have iff: "Q x \<longleftrightarrow> P x \<and> x \<noteq> p" for x
  proof (cases "x = p")
    case True
    with assms(3) show ?thesis by blast
  next
    case False
    from assms(4)[OF False] False show ?thesis by blast
  qed
  have "set (filter Q [0..<n]) = {x. x < n \<and> Q x}" by auto
  also have "\<dots> = {x. x < n \<and> P x} - {p}" unfolding iff by blast
  also have "{x. x < n \<and> P x} = set (filter P [0..<n])" by auto
  finally have eq: "set (filter Q [0..<n]) = set (filter P [0..<n]) - {p}" .
  have pin: "p \<in> set (filter P [0..<n])" using assms(1,2) by simp
  have "card (set (filter P [0..<n])) = Suc (card (set (filter P [0..<n]) - {p}))"
    by (rule card.remove[OF _ pin]) simp
  then have "card (set (filter P [0..<n])) = Suc (card (set (filter Q [0..<n])))"
    by (simp only: eq)
  then show ?thesis by (simp only: distinct_card[OF d(1)] distinct_card[OF d(2)])
qed

lemma pending_forks_mark_le: "pending_forks (mark s p) \<le> pending_forks s"
  unfolding pending_forks_def mark_simps
proof (rule length_filter_mono)
  fix x
  assume "is_fork (bytecode s ! x) \<and>
          (pc_last_input_index s)[nat p := input_index s] ! x \<noteq> input_index s"
  then show "is_fork (bytecode s ! x) \<and> pc_last_input_index s ! x \<noteq> input_index s"
    using nth_list_update_same[of "pc_last_input_index s" x "input_index s" "nat p"]
    by blast
qed

lemma pending_forks_mark_fork:
  assumes "runnable s p" and "p < int (length (bytecode s))" and "is_fork (bytecode s ! nat p)"
  shows "Suc (pending_forks (mark s p)) = pending_forks s"
  unfolding pending_forks_def mark_simps
proof (rule length_filter_upt_remove[where p = "nat p"])
  from assms show "nat p < length (bytecode s)" by (auto simp: runnable_def)
  from assms show "is_fork (bytecode s ! nat p) \<and>
      pc_last_input_index s ! nat p \<noteq> input_index s"
    by (simp add: runnable_def)
  from assms have "nat p < length (pc_last_input_index s)" by (auto simp: runnable_def)
  then have "(pc_last_input_index s)[nat p := input_index s] ! nat p = input_index s"
    by (rule nth_list_update_eq)
  then show "\<not> (is_fork (bytecode s ! nat p) \<and>
      (pc_last_input_index s)[nat p := input_index s] ! nat p \<noteq> input_index s)"
    by (simp only: not_not simp_thms)
  fix i assume "i \<noteq> nat p"
  then have "(pc_last_input_index s)[nat p := input_index s] ! i = pc_last_input_index s ! i"
    by (intro nth_list_update_neq) simp
  then show "(is_fork (bytecode s ! i) \<and>
        (pc_last_input_index s)[nat p := input_index s] ! i \<noteq> input_index s) =
      (is_fork (bytecode s ! i) \<and> pc_last_input_index s ! i \<noteq> input_index s)"
    by (simp only:)
qed

lemma blocked_le:
  assumes "blocked_ok s" and "distinct (map pc (blocked_threads s))"
  shows "length (blocked_threads s) \<le> length (filter is_consume (bytecode s))"
proof -
  let ?ps = "map (\<lambda>t. nat (pc t)) (blocked_threads s)"
  let ?C = "set (filter (\<lambda>i. is_consume (bytecode s ! i)) [0..<length (bytecode s)])"
  from assms(1) have nn: "\<forall>t \<in> set (blocked_threads s). 0 \<le> pc t"
    by (simp add: blocked_ok_def list_all_iff)
  from assms(2) have dx: "distinct (blocked_threads s)"
    and inj: "inj_on pc (set (blocked_threads s))" by (simp_all add: distinct_map)
  have "inj_on (\<lambda>t. nat (pc t)) (set (blocked_threads s))"
  proof (rule inj_onI)
    fix t u assume tu: "t \<in> set (blocked_threads s)" "u \<in> set (blocked_threads s)"
      and "nat (pc t) = nat (pc u)"
    with nn tu have "pc t = pc u" by (simp add: eq_nat_nat_iff)
    with inj tu show "t = u" by (auto dest: inj_onD)
  qed
  with dx have d: "distinct ?ps" by (simp add: distinct_map)
  have sub: "set ?ps \<subseteq> ?C"
    using assms(1) by (auto simp: blocked_ok_def list_all_iff)
  have "length (blocked_threads s) = card (set ?ps)"
    using distinct_card[OF d] by simp
  also have "\<dots> \<le> card ?C" using sub by (intro card_mono) simp_all
  also have "\<dots> = length (filter (\<lambda>i. is_consume (bytecode s ! i)) [0..<length (bytecode s)])"
    by (intro distinct_card) simp
  finally show ?thesis by (simp add: length_filter_nth)
qed

lemma bound_inv_bounded:
  assumes "well_formed (bytecode s)" and "blocked_ok s" and "bound_inv s"
  shows "bounded s"
proof -
  from assms(3) have d: "distinct (map pc (blocked_threads s))"
    and a: "length (active_threads s) + pending_forks s \<le> capacity (bytecode s)"
    by (simp_all add: bound_inv_def)
  from blocked_le[OF assms(2) d] capacity_le[OF assms(1)]
  have "length (blocked_threads s) \<le> length (bytecode s)" by (simp add: capacity_def)
  with a d capacity_le[OF assms(1)] show ?thesis by (simp add: bounded_def)
qed

lemma bound_inv_mark:
  assumes "bound_inv s"
  shows "distinct (map pc (blocked_threads (mark s p)))"
    and "list_all (\<lambda>t. pc_last_input_index (mark s p) ! nat (pc t) = input_index (mark s p))
           (blocked_threads (mark s p))"
    and "length (active_threads s) + pending_forks (mark s p) \<le> capacity (bytecode s)"
proof -
  from assms show "distinct (map pc (blocked_threads (mark s p)))"
    by (simp add: bound_inv_def)
  from assms have "list_all (\<lambda>t. pc_last_input_index s ! nat (pc t) = input_index s)
           (blocked_threads s)" by (simp add: bound_inv_def)
  then show "list_all (\<lambda>t. pc_last_input_index (mark s p) ! nat (pc t) =
                 input_index (mark s p)) (blocked_threads (mark s p))"
    unfolding list_all_iff mark_simps by (blast intro: nth_list_update_same)
  from assms pending_forks_mark_le[of s p]
  show "length (active_threads s) + pending_forks (mark s p) \<le> capacity (bytecode s)"
    by (simp add: bound_inv_def)
qed

lemma pending_forks_frame:
  "bytecode s' = bytecode s \<Longrightarrow> pc_last_input_index s' = pc_last_input_index s \<Longrightarrow>
   input_index s' = input_index s \<Longrightarrow> pending_forks s' = pending_forks s"
  by (simp add: pending_forks_def)

lemma bound_inv_step_fork:
  assumes "bound_inv s" and "runnable s (pc t)" and "pc t < int (length (bytecode s))"
    and "bytecode s ! nat (pc t) = FORK target"
  shows "bound_inv ((mark s (pc t))\<lparr>active_threads := active_threads s @ [u]\<rparr>)"
proof -
  let ?s' = "(mark s (pc t))\<lparr>active_threads := active_threads s @ [u]\<rparr>"
  from assms(4) have "is_fork (bytecode s ! nat (pc t))" by (simp add: is_fork_def)
  from pending_forks_mark_fork[OF assms(2,3) this]
  have "Suc (pending_forks (mark s (pc t))) = pending_forks s" .
  moreover have "pending_forks ?s' = pending_forks (mark s (pc t))"
    by (rule pending_forks_frame) simp_all
  moreover from assms(1) have "length (active_threads s) + pending_forks s
      \<le> capacity (bytecode s)" by (simp add: bound_inv_def)
  ultimately have "length (active_threads ?s') + pending_forks ?s' \<le> capacity (bytecode ?s')"
    by simp
  with bound_inv_mark(1,2)[OF assms(1), of "pc t"] show ?thesis
    by (simp add: bound_inv_def)
qed

lemma bound_inv_step_jmp:
  assumes "bound_inv s"
  shows "bound_inv (mark s p)"
  using bound_inv_mark[OF assms, of p] by (simp add: bound_inv_def)

lemma bound_inv_step_consume:
  assumes "bound_inv s" and "runnable s (pc t)"
  shows "bound_inv ((mark s (pc t))\<lparr>blocked_threads := blocked_threads s @ [t]\<rparr>)"
proof -
  let ?s' = "(mark s (pc t))\<lparr>blocked_threads := blocked_threads s @ [t]\<rparr>"
  from assms(1) have m: "list_all (\<lambda>u. pc_last_input_index s ! nat (pc u) = input_index s)
           (blocked_threads s)" and d: "distinct (map pc (blocked_threads s))"
    by (simp_all add: bound_inv_def)
  have "pc t \<notin> pc ` set (blocked_threads s)"
  proof
    assume "pc t \<in> pc ` set (blocked_threads s)"
    then obtain u where "u \<in> set (blocked_threads s)" "pc u = pc t" by auto
    with m have "pc_last_input_index s ! nat (pc t) = input_index s"
      by (auto simp: list_all_iff)
    with assms(2) show False by (simp add: runnable_def)
  qed
  with d have "distinct (map pc (blocked_threads ?s'))" by simp
  moreover from assms(2) have "nat (pc t) < length (pc_last_input_index s)"
    by (auto simp: runnable_def)
  then have "pc_last_input_index ?s' ! nat (pc t) = input_index ?s'" by simp
  with bound_inv_mark(2)[OF assms(1), of "pc t"]
  have "list_all (\<lambda>u. pc_last_input_index ?s' ! nat (pc u) = input_index ?s')
           (blocked_threads ?s')" by simp
  moreover have "pending_forks ?s' = pending_forks (mark s (pc t))"
    by (rule pending_forks_frame) simp_all
  with bound_inv_mark(3)[OF assms(1), of "pc t"]
  have "length (active_threads ?s') + pending_forks ?s' \<le> capacity (bytecode ?s')" by simp
  ultimately show ?thesis by (simp add: bound_inv_def)
qed

lemma bound_inv_step_accept:
  assumes "bound_inv s"
  shows "bound_inv ((mark s p)\<lparr>best_match := m, active_threads := []\<rparr>)"
proof -
  let ?s' = "(mark s p)\<lparr>best_match := m, active_threads := []\<rparr>"
  have "pending_forks ?s' = pending_forks (mark s p)"
    by (rule pending_forks_frame) simp_all
  with bound_inv_mark[OF assms, of p] show ?thesis
    by (simp add: bound_inv_def)
qed

lemma bound_inv_pop:
  assumes "bound_inv s"
  shows "bound_inv (s\<lparr>active_threads := butlast (active_threads s)\<rparr>)"
proof -
  let ?s' = "s\<lparr>active_threads := butlast (active_threads s)\<rparr>"
  have "pending_forks ?s' = pending_forks s" by (rule pending_forks_frame) simp_all
  moreover have "length (butlast (active_threads s)) \<le> length (active_threads s)" by simp
  ultimately show ?thesis using assms unfolding bound_inv_def by auto
qed

lemma RunActiveThread_bound_inv:
  assumes "RunActiveThread s t = Some r" and "r = Inr s'" and "bound_inv s"
  shows "bound_inv s'"
  using assms
proof (induction arbitrary: s' rule: RunActiveThread_induct)
  case (error s t e)
  then show ?case by simp
next
  case (processed s t)
  then show ?case by simp
next
  case (no_instruction s t)
  then show ?case by simp
next
  case (consume s t lo hi)
  with bound_inv_step_consume[OF consume(5,1)] show ?case by simp
next
  case (fork s t target r)
  from fork(4)[OF fork(5) bound_inv_step_fork[OF fork(6,1,2,3)]] show ?case .
next
  case (jmp s t target r)
  from jmp(4)[OF jmp(5) bound_inv_step_jmp[OF jmp(6)]] show ?case .
next
  case (accept s t)
  from accept(4) bound_inv_step_accept[OF accept(5), where p = "pc t"
      and m = "Some \<lparr>range_begin = match_begin t, range_end = input_index s\<rparr>"]
  show ?case by simp
qed

lemma RunActiveThreads_bound_inv:
  assumes "RunActiveThreads s = Some r" and "r = Inr s'" and "bound_inv s"
  shows "bound_inv s'"
  using assms
proof (induction arbitrary: s' rule: RunActiveThreads_induct)
  case (empty s)
  then show ?case by simp
next
  case (error s e)
  then show ?case by simp
next
  case (step s s1 r)
  from RunActiveThread_bound_inv[OF step(2) refl bound_inv_pop[OF step(5)]]
  have "bound_inv s1" .
  from step(3)[OF step(4) this] show ?case .
qed

lemma FindNextMatch_start_search:
  "clean s \<Longrightarrow>
   FindNextMatch s =
     (case RunActiveThreads (start_search s) of
        None \<Rightarrow> None
      | Some (Inl e) \<Rightarrow> Some (Inl e)
      | Some (Inr s2) \<Rightarrow>
          (case FindNextMatch_loop s2 of
             None \<Rightarrow> None
           | Some (Inl e) \<Rightarrow> Some (Inl e)
           | Some (Inr s3) \<Rightarrow>
               Some (Inr (best_match s3,
                          s3\<lparr>best_match := None, blocked_threads := [],
                             active_threads := []\<rparr>))))"
  by (simp add: FindNextMatch_def clean_def Let_def start_search_def)

lemma search_inv_start_search:
  assumes "well_formed (bytecode s)" and "clean s"
    and "0 \<le> input_index s" and "input_index s \<le> int (length (input s))"
  shows "search_inv (input_index s) (start_search s)"
  using assms
  by (simp add: search_inv_def clean_def blocked_ok_def thread_inv_def well_formed_def
        list_all_iff start_search_def)

lemma bound_inv_start_search:
  assumes "clean s"
  shows "bound_inv (start_search s)"
proof -
  have "pending_forks (start_search s) \<le> length (filter is_fork (bytecode (start_search s)))"
    by (rule pending_forks_le)
  with assms show ?thesis
    by (simp add: bound_inv_def start_search_def clean_def capacity_def)
qed

lemma FlushBlockedThreads_loop_split:
  assumes "blocked_ok s" and "j \<le> length (blocked_threads s)"
  shows "FlushBlockedThreads_loop s c (length (blocked_threads s)) =
         FlushBlockedThreads_loop (flushed_from s c j) c j"
proof -
  let ?M = "\<lambda>xs. map advance (filter (consumes (bytecode s) c) xs)"
  have bo: "blocked_ok (flushed_from s c j)"
    using assms(1) by (simp add: blocked_ok_def flushed_from_def)
  have "rev (blocked_threads s) = rev (drop j (blocked_threads s)) @ rev (take j (blocked_threads s))"
    using rev_append[of "take j (blocked_threads s)" "drop j (blocked_threads s)"] by simp
  then have "?M (rev (blocked_threads s)) =
             ?M (rev (drop j (blocked_threads s))) @ ?M (rev (take j (blocked_threads s)))"
    by simp
  then show ?thesis
    using FlushBlockedThreads_loop_eq[OF order_refl assms(1), of c]
      FlushBlockedThreads_loop_eq[of j "flushed_from s c j" c] bo assms(2)
    by (simp add: flushed_from_def)
qed

lemma bound_inv_feed:
  assumes "search_inv lo s" and "bound_inv s" and "active_threads s = []"
  shows "length (active_threads (flushed_from (seed s) c j)) \<le> capacity (bytecode s)"
    and "bound_inv ((flushed_from (seed s) c 0)\<lparr>blocked_threads := []\<rparr>)"
proof -
  from assms(1) have bo: "blocked_ok s" by (simp add: search_inv_def)
  from assms(2) have d: "distinct (map pc (blocked_threads s))" by (simp add: bound_inv_def)
  note bl = blocked_le[OF bo d]
  have sd: "length (active_threads (seed s)) \<le> 1" using assms(3) by (simp add: seed_def)
  have len: "length (active_threads (flushed_from (seed s) c j))
      \<le> 1 + length (filter is_consume (bytecode s))" for j
  proof -
    have "length (filter (consumes (bytecode s) c) (rev (drop j (blocked_threads s))))
          \<le> length (rev (drop j (blocked_threads s)))" by (rule length_filter_le)
    also have "\<dots> \<le> length (blocked_threads s)" by simp
    finally have "length (map advance (filter (consumes (bytecode s) c)
                     (rev (drop j (blocked_threads s))))) \<le> length (blocked_threads s)"
      by simp
    with sd bl show ?thesis unfolding flushed_from_def by simp
  qed
  from len[of j] show "length (active_threads (flushed_from (seed s) c j)) \<le> capacity (bytecode s)"
    unfolding capacity_def by linarith
  let ?s3 = "(flushed_from (seed s) c 0)\<lparr>blocked_threads := []\<rparr>"
  have "pending_forks ?s3 \<le> length (filter is_fork (bytecode ?s3))" by (rule pending_forks_le)
  with len[of 0] have "length (active_threads ?s3) + pending_forks ?s3 \<le> capacity (bytecode ?s3)"
    by (simp add: capacity_def flushed_from_def)
  then show "bound_inv ?s3" by (simp add: bound_inv_def)
qed

lemma FlushBlockedThreads_flushed_from:
  "blocked_ok s \<Longrightarrow>
   FlushBlockedThreads s c = Inr ((flushed_from s c 0)\<lparr>blocked_threads := []\<rparr>)"
  by (simp add: FlushBlockedThreads_eq flushed_from_def)

lemma search_inv_step_fork:
  assumes "search_inv lo s" and "thread_inv (bytecode s) lo (input_index s) t"
    and "bytecode s ! nat (pc t) = FORK target"
  shows "search_inv lo
           ((mark s (pc t))\<lparr>active_threads := active_threads s @ [t\<lparr>pc := target\<rparr>]\<rparr>)"
    and "thread_inv (bytecode s) lo (input_index s) (t\<lparr>pc := pc t + 1\<rparr>)"
proof -
  from assms(1) have m: "search_inv lo (mark s (pc t))" by (rule search_inv_mark)
  from assms(1,2) have vp: "well_formed (bytecode s)" "0 \<le> pc t"
    "pc t < int (length (bytecode s))"
    by (simp_all add: search_inv_def thread_inv_def)
  note d = well_formedD(2)[OF vp assms(3)]
  show "search_inv lo
          ((mark s (pc t))\<lparr>active_threads := active_threads s @ [t\<lparr>pc := target\<rparr>]\<rparr>)"
    using m d assms(2) by (simp add: search_inv_def blocked_ok_def thread_inv_def)
  show "thread_inv (bytecode s) lo (input_index s) (t\<lparr>pc := pc t + 1\<rparr>)"
    using d assms(2) by (simp add: thread_inv_def)
qed

lemma search_inv_step_jmp:
  assumes "search_inv lo s" and "thread_inv (bytecode s) lo (input_index s) t"
    and "bytecode s ! nat (pc t) = JMP target"
  shows "thread_inv (bytecode s) lo (input_index s) (t\<lparr>pc := target\<rparr>)"
proof -
  from assms(1,2) have vp: "well_formed (bytecode s)" "0 \<le> pc t"
    "pc t < int (length (bytecode s))"
    by (simp_all add: search_inv_def thread_inv_def)
  note d = well_formedD(3)[OF vp assms(3)]
  show ?thesis using d assms(2) by (simp add: thread_inv_def)
qed

lemma search_inv_pop:
  assumes "search_inv lo s" and "active_threads s \<noteq> []"
  shows "search_inv lo (s\<lparr>active_threads := butlast (active_threads s)\<rparr>)"
    and "thread_inv (bytecode s) lo (input_index s) (last (active_threads s))"
proof -
  show "search_inv lo (s\<lparr>active_threads := butlast (active_threads s)\<rparr>)"
    using assms(1)
    by (auto simp: search_inv_def blocked_ok_def list_all_iff dest: in_set_butlastD)
  from assms(1) have "list_all (thread_inv (bytecode s) lo (input_index s)) (active_threads s)"
    by (simp add: search_inv_def)
  with assms(2) show "thread_inv (bytecode s) lo (input_index s) (last (active_threads s))"
    by (simp add: list_all_iff)
qed

subsection \<open>The search refines the backtracking VM\<close>

lemma bt_mono: "bt n code inp p i = Some r \<Longrightarrow> n \<le> m \<Longrightarrow> bt m code inp p i = Some r"
proof (induction n code inp p i arbitrary: m r rule: bt.induct)
  case (1 code inp p i)
  then show ?case by simp
next
  case (2 n code inp p i)
  note eq = "2.prems"(1)
  from "2.prems"(2) obtain m' where m: "m = Suc m'" "n \<le> m'" by (cases m) auto
  show ?case
  proof (cases "p < 0 \<or> int (length code) \<le> p")
    case True
    with eq m show ?thesis by simp
  next
    case False
    show ?thesis
    proof (cases "code ! nat p")
      case (CONSUME_RANGE lo hi)
      show ?thesis
      proof (cases "in_range inp i lo hi")
        case c: True
        with False CONSUME_RANGE eq have "bt n code inp (p + 1) (i + 1) = Some r" by simp
        from "2.IH"(1)[OF False CONSUME_RANGE c this m(2)] False CONSUME_RANGE c m
        show ?thesis by simp
      next
        case c: False
        with False CONSUME_RANGE eq m show ?thesis by simp
      qed
    next
      case (FORK target)
      from False FORK eq obtain x where x: "bt n code inp (p + 1) i = Some x"
        by (auto split: option.splits)
      from "2.IH"(2)[OF False FORK x m(2)] have x': "bt m' code inp (p + 1) i = Some x" .
      show ?thesis
      proof (cases x)
        case None
        with False FORK eq x have "bt n code inp target i = Some r" by simp
        from "2.IH"(3)[OF False FORK x None this m(2)] x' None False FORK m
        show ?thesis by simp
      next
        case (Some e)
        with False FORK eq x x' m show ?thesis by auto
      qed
    next
      case (JMP target)
      with False eq have "bt n code inp target i = Some r" by simp
      from "2.IH"(4)[OF False JMP this m(2)] False JMP m show ?thesis by simp
    next
      case ACCEPT
      with False eq m show ?thesis by simp
    qed
  qed
qed

lemma bt_outside:
  "p < 0 \<or> int (length code) \<le> p \<Longrightarrow> bt (Suc n) code inp p i = Some None"
  by simp

lemma bt_CONSUME_RANGE:
  "0 \<le> p \<Longrightarrow> p < int (length code) \<Longrightarrow> code ! nat p = CONSUME_RANGE lo hi \<Longrightarrow>
   bt (Suc n) code inp p i =
     (if in_range inp i lo hi then bt n code inp (p + 1) (i + 1) else Some None)"
  by simp

lemma bt_FORK:
  "0 \<le> p \<Longrightarrow> p < int (length code) \<Longrightarrow> code ! nat p = FORK target \<Longrightarrow>
   bt (Suc n) code inp p i =
     (case bt n code inp (p + 1) i of
        None \<Rightarrow> None
      | Some (Some e) \<Rightarrow> Some (Some e)
      | Some None \<Rightarrow> bt n code inp target i)"
  by simp

lemma bt_JMP:
  "0 \<le> p \<Longrightarrow> p < int (length code) \<Longrightarrow> code ! nat p = JMP target \<Longrightarrow>
   bt (Suc n) code inp p i = bt n code inp target i"
  by simp

lemma bt_ACCEPT:
  "0 \<le> p \<Longrightarrow> p < int (length code) \<Longrightarrow> code ! nat p = ACCEPT \<Longrightarrow>
   bt (Suc n) code inp p i = Some (Some i)"
  by simp

lemma bt_Some_Suc: "bt n code inp p i = Some r \<Longrightarrow> \<exists>m. n = Suc m"
  by (cases n) simp_all

lemma bt_unique:
  assumes "bt n code inp p i = Some r" and "bt m code inp p i = Some r'"
  shows "r = r'"
proof -
  from bt_mono[OF assms(1), of "max n m"] bt_mono[OF assms(2), of "max n m"]
  show ?thesis by simp
qed

lemma first_match_append:
  "first_match n code inp i (xs @ ys) =
     (case first_match n code inp i xs of
        None \<Rightarrow> None
      | Some (Some m) \<Rightarrow> Some (Some m)
      | Some None \<Rightarrow> first_match n code inp i ys)"
  by (induction xs) (auto split: option.splits)

lemma first_match_mono:
  "first_match n code inp i xs = Some r \<Longrightarrow> n \<le> m \<Longrightarrow>
   first_match m code inp i xs = Some r"
proof (induction xs)
  case Nil
  then show ?case by simp
next
  case (Cons t ts)
  from Cons.prems(1) obtain x where x: "bt n code inp (pc t) i = Some x"
    by (auto split: option.splits)
  from bt_mono[OF x Cons.prems(2)] have x': "bt m code inp (pc t) i = Some x" .
  show ?case
  proof (cases x)
    case None
    with x Cons.prems(1) have "first_match n code inp i ts = Some r" by simp
    from Cons.IH[OF this Cons.prems(2)] x' None show ?thesis by simp
  next
    case (Some e)
    with x x' Cons.prems(1) show ?thesis by auto
  qed
qed

lemma first_match_fails:
  "first_match n code inp i xs = Some None \<longleftrightarrow>
   (\<forall>t \<in> set xs. bt n code inp (pc t) i = Some None)"
  by (induction xs) (auto split: option.splits)

text \<open>Replacing the first thread of a list by threads that do what it does.\<close>

lemma first_match_replace:
  assumes "first_match n code inp i (t # zs) = Some v"
    and "\<And>x. bt n code inp (pc t) i = Some x \<Longrightarrow>
           first_match n code inp i ys =
             Some (map_option (\<lambda>e. \<lparr>range_begin = match_begin t, range_end = e\<rparr>) x)"
  shows "first_match n code inp i (ys @ zs) = Some v"
proof -
  from assms(1) obtain x where x: "bt n code inp (pc t) i = Some x"
    by (auto split: option.splits)
  note y = assms(2)[OF x]
  show ?thesis
  proof (cases x)
    case None
    with x assms(1) y show ?thesis by (simp add: first_match_append)
  next
    case (Some e)
    with x assms(1) y show ?thesis by (auto simp: first_match_append)
  qed
qed

lemma first_match_replace_in:
  assumes "first_match n code inp i (bs @ t # zs) = Some v"
    and "\<And>x. bt n code inp (pc t) i = Some x \<Longrightarrow>
           first_match n code inp i ys =
             Some (map_option (\<lambda>e. \<lparr>range_begin = match_begin t, range_end = e\<rparr>) x)"
  shows "first_match n code inp i (bs @ ys @ zs) = Some v"
proof (cases "first_match n code inp i bs")
  case None
  with assms(1) show ?thesis by (simp add: first_match_append)
next
  case (Some r)
  show ?thesis
  proof (cases r)
    case None
    with Some assms(1) have "first_match n code inp i (t # zs) = Some v"
      by (simp add: first_match_append)
    from first_match_replace[OF this assms(2)] Some None show ?thesis
      by (simp add: first_match_append[of n code inp i bs])
  next
    case (Some m)
    with \<open>first_match n code inp i bs = Some r\<close> assms(1) show ?thesis
      by (auto simp: first_match_append[of n code inp i bs])
  qed
qed

lemma lift_end_simps [simp]:
  "lift_end t None = None"
  "lift_end t (Some e) = Some \<lparr>range_begin = match_begin t, range_end = e\<rparr>"
  "lift_end t x = None \<longleftrightarrow> x = None"
  by (simp_all add: lift_end_def)

lemma first_match_Cons_lift:
  "first_match n code inp i (t # ts) =
     (case bt n code inp (pc t) i of
        None \<Rightarrow> None
      | Some x \<Rightarrow> (case lift_end t x of
                     Some m \<Rightarrow> Some (Some m)
                   | None \<Rightarrow> first_match n code inp i ts))"
  by (auto split: option.splits)

lemma first_match_single:
  "bt n code inp (pc t) i = Some x \<Longrightarrow> first_match n code inp i [t] = Some (lift_end t x)"
  by (cases x) simp_all

lemma covered_never_succeeds:
  assumes "covered code inp i (t # xs) (pc t)"
  shows "never_succeeds code inp i t"
proof -
  from assms obtain j where j: "j \<le> length (t # xs)"
    and c: "\<And>n r. bt (Suc n) code inp (pc t) i = Some r \<Longrightarrow>
        \<exists>r'. first_match n code inp i (take j (t # xs)) = Some r' \<and> (r' = None \<longrightarrow> r = None)"
    unfolding covered_def by blast
  show ?thesis
  proof (cases j)
    case 0
    have "bt n code inp (pc t) i \<noteq> Some (Some e)" for n e
    proof (cases n)
      case 0
      then show ?thesis by simp
    next
      case (Suc m)
      show ?thesis
      proof
        assume "bt n code inp (pc t) i = Some (Some e)"
        with Suc c[of m "Some e"] \<open>j = 0\<close> show False by simp
      qed
    qed
    then show ?thesis by (simp add: never_succeeds_def)
  next
    case (Suc j0)
    have "bt n code inp (pc t) i = None" for n
    proof (induction n)
      case 0
      then show ?case by simp
    next
      case (Suc n)
      show ?case
      proof (rule ccontr)
        assume "bt (Suc n) code inp (pc t) i \<noteq> None"
        then obtain r where "bt (Suc n) code inp (pc t) i = Some r" by blast
        from c[OF this] \<open>j = Suc j0\<close> obtain r' where
          "first_match n code inp i (t # take j0 xs) = Some r'" by auto
        with Suc.IH show False by simp
      qed
    qed
    then show ?thesis by (simp add: never_succeeds_def)
  qed
qed

lemma covered_replace:
  assumes "covered code inp i (t # xs) p"
    and "\<And>n x. bt n code inp (pc t) i = Some x \<Longrightarrow>
           first_match n code inp i ys = Some (lift_end t x)"
  shows "covered code inp i (ys @ xs) p"
proof -
  from assms(1) obtain j where j: "j \<le> length (t # xs)"
    and c: "\<And>n r. bt (Suc n) code inp p i = Some r \<Longrightarrow>
        \<exists>r'. first_match n code inp i (take j (t # xs)) = Some r' \<and> (r' = None \<longrightarrow> r = None)"
    unfolding covered_def by blast
  show ?thesis
  proof (cases j)
    case 0
    with c have "\<forall>n r. bt (Suc n) code inp p i = Some r \<longrightarrow>
        (\<exists>r'. first_match n code inp i (take 0 (ys @ xs)) = Some r' \<and> (r' = None \<longrightarrow> r = None))"
      by simp
    then show ?thesis unfolding covered_def by (intro exI[of _ 0]) simp
  next
    case (Suc j0)
    have "\<exists>r'. first_match n code inp i (take (length ys + j0) (ys @ xs)) = Some r' \<and>
            (r' = None \<longrightarrow> r = None)"
      if "bt (Suc n) code inp p i = Some r" for n r
    proof -
      from c[OF that] Suc obtain r' where
        r': "first_match n code inp i (t # take j0 xs) = Some r'" "r' = None \<longrightarrow> r = None"
        by auto
      have "first_match n code inp i (ys @ take j0 xs) = Some r'"
        using r'(1) assms(2) by (rule first_match_replace[unfolded lift_end_def[symmetric]])
      with r'(2) show ?thesis by auto
    qed
    moreover from j Suc have "length ys + j0 \<le> length (ys @ xs)" by simp
    ultimately show ?thesis unfolding covered_def by blast
  qed
qed

lemma covered_drop:
  assumes "covered code inp i (t # xs) p" and "never_succeeds code inp i t"
  shows "covered code inp i xs p"
proof -
  have "first_match n code inp i [] = Some (lift_end t x)"
    if "bt n code inp (pc t) i = Some x" for n x
    using that assms(2) by (cases x) (auto simp: never_succeeds_def)
  from covered_replace[OF assms(1), of "[]", OF this] show ?thesis by simp
qed

lemma covered_new:
  assumes "\<And>n r. bt (Suc n) code inp p i = Some r \<Longrightarrow>
             first_match n code inp i ys = Some (lift_end t r)"
  shows "covered code inp i (ys @ xs) p"
  unfolding covered_def
proof (intro exI[of _ "length ys"] conjI allI impI)
  show "length ys \<le> length (ys @ xs)" by simp
  fix n r assume "bt (Suc n) code inp p i = Some r"
  from assms[OF this]
  show "\<exists>r'. first_match n code inp i (take (length ys) (ys @ xs)) = Some r' \<and>
          (r' = None \<longrightarrow> r = None)" by simp
qed

lemma covered_failed:
  assumes "\<And>n e. bt n code inp p i \<noteq> Some (Some e)"
  shows "covered code inp i xs p"
  unfolding covered_def
proof (intro exI[of _ 0] conjI allI impI)
  fix n r assume "bt (Suc n) code inp p i = Some r"
  with assms[of "Suc n"] have "r = None" by (cases r) auto
  then show "\<exists>r'. first_match n code inp i (take 0 xs) = Some r' \<and> (r' = None \<longrightarrow> r = None)"
    by simp
qed simp

lemma jmp_new:
  assumes "0 \<le> pc t" and "pc t < int (length code)" and "code ! nat (pc t) = JMP target"
    and "bt (Suc n) code inp (pc t) i = Some r"
  shows "first_match n code inp i [t\<lparr>pc := target\<rparr>] = Some (lift_end t r)"
proof -
  from assms have "bt n code inp (pc (t\<lparr>pc := target\<rparr>)) i = Some r"
    by (simp add: bt_JMP)
  from first_match_single[OF this] show ?thesis by (simp add: lift_end_def)
qed

lemma fork_new:
  assumes "0 \<le> pc t" and "pc t < int (length code)" and "code ! nat (pc t) = FORK target"
    and "bt (Suc n) code inp (pc t) i = Some r"
  shows "first_match n code inp i [t\<lparr>pc := pc t + 1\<rparr>, t\<lparr>pc := target\<rparr>] = Some (lift_end t r)"
proof -
  from assms have eq: "(case bt n code inp (pc t + 1) i of
        None \<Rightarrow> None
      | Some (Some e) \<Rightarrow> Some (Some e)
      | Some None \<Rightarrow> bt n code inp target i) = Some r"
    by (simp add: bt_FORK)
  then obtain x where x: "bt n code inp (pc t + 1) i = Some x"
    by (auto split: option.splits)
  show ?thesis
  proof (cases x)
    case None
    with eq x have "bt n code inp target i = Some r" by simp
    with x None show ?thesis by (cases r) (simp_all add: lift_end_def)
  next
    case (Some e)
    with eq x show ?thesis by (auto simp: lift_end_def)
  qed
qed

lemma jmp_does:
  assumes "0 \<le> pc t" and "pc t < int (length code)" and "code ! nat (pc t) = JMP target"
    and "bt n code inp (pc t) i = Some x"
  shows "first_match n code inp i [t\<lparr>pc := target\<rparr>] = Some (lift_end t x)"
proof -
  from bt_Some_Suc[OF assms(4)] obtain m where m: "n = Suc m" by blast
  from jmp_new[OF assms(1-3) assms(4)[unfolded m]]
  show ?thesis unfolding m by (rule first_match_mono) simp
qed

lemma fork_does:
  assumes "0 \<le> pc t" and "pc t < int (length code)" and "code ! nat (pc t) = FORK target"
    and "bt n code inp (pc t) i = Some x"
  shows "first_match n code inp i [t\<lparr>pc := pc t + 1\<rparr>, t\<lparr>pc := target\<rparr>] = Some (lift_end t x)"
proof -
  from bt_Some_Suc[OF assms(4)] obtain m where m: "n = Suc m" by blast
  from fork_new[OF assms(1-3) assms(4)[unfolded m]]
  show ?thesis unfolding m by (rule first_match_mono) simp
qed

lemma first_match_fails_never:
  assumes "first_match n code inp i bs = Some None"
  shows "\<forall>u \<in> set bs. never_succeeds code inp i u"
proof
  fix u assume "u \<in> set bs"
  with assms have "bt n code inp (pc u) i = Some None" by (simp add: first_match_fails)
  then show "never_succeeds code inp i u"
    unfolding never_succeeds_def using bt_unique by fastforce
qed

lemma expected_replace:
  assumes "expected n code inp i (bs @ t # zs) best = Some v"
    and "\<And>x. \<forall>u \<in> set bs. never_succeeds code inp i u \<Longrightarrow>
           bt n code inp (pc t) i = Some x \<Longrightarrow>
           first_match n code inp i ys = Some (lift_end t x)"
  shows "expected n code inp i (bs @ ys @ zs) best = Some v"
proof (cases "first_match n code inp i bs")
  case None
  with assms(1) show ?thesis by (simp add: expected_def first_match_append)
next
  case (Some r)
  show ?thesis
  proof (cases r)
    case (Some m)
    with \<open>first_match n code inp i bs = Some r\<close>
    have f: "first_match n code inp i bs = Some (Some m)" by simp
    have "expected n code inp i (bs @ t # zs) best = Some (Some m)"
      by (simp add: expected_def first_match_append[of n code inp i bs] f)
    moreover have "expected n code inp i (bs @ ys @ zs) best = Some (Some m)"
      by (simp add: expected_def first_match_append[of n code inp i bs] f)
    ultimately show ?thesis using assms(1) by simp
  next
    case None
    with Some have f: "first_match n code inp i bs = Some None" by simp
    note nv = first_match_fails_never[OF f]
    from assms(1) obtain w where w: "first_match n code inp i (bs @ t # zs) = Some w"
      by (auto simp: expected_def split: option.splits)
    have "first_match n code inp i (bs @ ys @ zs) = Some w"
      using w assms(2)[OF nv]
      by (rule first_match_replace_in[unfolded lift_end_def[symmetric]])
    with w assms(1) show ?thesis by (simp add: expected_def)
  qed
qed

lemma recorded_mark:
  "recorded (mark s p) q \<Longrightarrow> 0 \<le> p \<Longrightarrow> q = p \<or> recorded s q"
  by (cases "nat q = nat p") (auto simp: recorded_def mark_def nth_list_update split: if_splits)

lemma recorded_IsPcProcessed:
  "IsPcProcessed s p = Inr True \<Longrightarrow> recorded s p"
  by (auto simp: IsPcProcessed_def recorded_def split: if_splits)

lemma settled_processed:
  assumes "settled s (t # xs)" and "recorded s (pc t)"
  shows "settled s xs"
  unfolding settled_def
proof (intro impI allI)
  fix p
  assume b: "\<forall>u \<in> set (blocked_threads s). never_succeeds (bytecode s) (input s) (input_index s) u"
    and p: "recorded s p"
  from assms(1) b have c: "\<And>q. recorded s q \<Longrightarrow>
      covered (bytecode s) (input s) (input_index s) (t # xs) q"
    unfolding settled_def by blast
  from c[OF assms(2)] have "never_succeeds (bytecode s) (input s) (input_index s) t"
    by (rule covered_never_succeeds)
  with c[OF p] show "covered (bytecode s) (input s) (input_index s) xs p"
    by (rule covered_drop)
qed

lemma expected_processed:
  assumes "settled s (t # xs)" and "recorded s (pc t)"
    and "expected_of n s (t # xs) = Some v"
  shows "expected_of n s xs = Some v"
proof -
  have "first_match n (bytecode s) (input s) (input_index s) [] = Some (lift_end t x)"
    if b: "\<forall>u \<in> set (blocked_threads s). never_succeeds (bytecode s) (input s) (input_index s) u"
      and x: "bt n (bytecode s) (input s) (pc t) (input_index s) = Some x" for x
  proof -
    from assms(1,2) b have "covered (bytecode s) (input s) (input_index s) (t # xs) (pc t)"
      unfolding settled_def by blast
    then have "never_succeeds (bytecode s) (input s) (input_index s) t"
      by (rule covered_never_succeeds)
    with x show ?thesis by (cases x) (auto simp: never_succeeds_def)
  qed
  from expected_replace[OF assms(3)[unfolded expected_of_def], of "[]", OF this]
  show ?thesis by (simp add: expected_of_def)
qed

lemma settled_step:
  assumes "settled s (t # xs)"
    and does: "\<And>n x. bt n (bytecode s) (input s) (pc t) (input_index s) = Some x \<Longrightarrow>
           first_match n (bytecode s) (input s) (input_index s) ys = Some (lift_end t x)"
    and new: "\<And>n r. bt (Suc n) (bytecode s) (input s) (pc t) (input_index s) = Some r \<Longrightarrow>
           first_match n (bytecode s) (input s) (input_index s) ys = Some (lift_end t r)"
    and "0 \<le> pc t"
    and eq: "bytecode s1 = bytecode s" "input s1 = input s" "input_index s1 = input_index s"
      "blocked_threads s1 = blocked_threads s"
      "pc_last_input_index s1 = pc_last_input_index (mark s (pc t))"
  shows "settled s1 (ys @ xs)"
  unfolding settled_def eq(1-4)
proof (intro impI allI)
  fix p
  assume b: "\<forall>u \<in> set (blocked_threads s). never_succeeds (bytecode s) (input s) (input_index s) u"
    and p: "recorded s1 p"
  from p eq(3,5) have "recorded (mark s (pc t)) p"
    by (simp add: recorded_def mark_def)
  from recorded_mark[OF this assms(4)] have "p = pc t \<or> recorded s p" .
  then show "covered (bytecode s) (input s) (input_index s) (ys @ xs) p"
  proof
    assume "p = pc t"
    with new show ?thesis by (auto intro: covered_new)
  next
    assume "recorded s p"
    with assms(1) b have "covered (bytecode s) (input s) (input_index s) (t # xs) p"
      unfolding settled_def by blast
    then show ?thesis using does by (rule covered_replace)
  qed
qed

lemma expected_step:
  assumes "expected_of n s (t # xs) = Some v"
    and does: "\<And>x. bt n (bytecode s) (input s) (pc t) (input_index s) = Some x \<Longrightarrow>
           first_match n (bytecode s) (input s) (input_index s) ys = Some (lift_end t x)"
    and eq: "bytecode s1 = bytecode s" "input s1 = input s" "input_index s1 = input_index s"
      "blocked_threads s1 = blocked_threads s" "best_match s1 = best_match s"
  shows "expected_of n s1 (ys @ xs) = Some v"
  using expected_replace[OF assms(1)[unfolded expected_of_def], of ys, OF does]
  by (simp add: expected_of_def eq)

lemma settled_consume:
  assumes "settled s (t # xs)" and "0 \<le> pc t"
  shows "settled ((mark s (pc t))\<lparr>blocked_threads := blocked_threads s @ [t]\<rparr>) xs"
  unfolding settled_def
proof (intro impI allI)
  let ?s' = "(mark s (pc t))\<lparr>blocked_threads := blocked_threads s @ [t]\<rparr>"
  fix p
  assume b: "\<forall>u \<in> set (blocked_threads ?s').
      never_succeeds (bytecode ?s') (input ?s') (input_index ?s') u"
    and p: "recorded ?s' p"
  from b have b': "\<forall>u \<in> set (blocked_threads s).
      never_succeeds (bytecode s) (input s) (input_index s) u"
    and nv: "never_succeeds (bytecode s) (input s) (input_index s) t"
    by (simp_all add: mark_def)
  from p have "recorded (mark s (pc t)) p" by (simp add: recorded_def mark_def)
  from recorded_mark[OF this assms(2)] have "p = pc t \<or> recorded s p" .
  then have "covered (bytecode s) (input s) (input_index s) xs p"
  proof
    assume "p = pc t"
    with nv show ?thesis by (auto intro: covered_failed simp: never_succeeds_def)
  next
    assume "recorded s p"
    with assms(1) b' have "covered (bytecode s) (input s) (input_index s) (t # xs) p"
      unfolding settled_def by blast
    then show ?thesis using nv by (rule covered_drop)
  qed
  then show "covered (bytecode ?s') (input ?s') (input_index ?s') xs p"
    by (simp add: mark_def)
qed

lemma expected_consume:
  "expected_of n ((mark s p)\<lparr>blocked_threads := blocked_threads s @ [t]\<rparr>) xs =
   expected_of n s (t # xs)"
  by (simp add: expected_of_def mark_def)

lemma expected_accept:
  assumes "expected_of n s (t # xs) = Some v"
    and "0 \<le> pc t" and "pc t < int (length (bytecode s))"
    and "bytecode s ! nat (pc t) = ACCEPT"
  shows "expected_of n ((mark s (pc t))\<lparr>best_match :=
            Some \<lparr>range_begin = match_begin t, range_end = input_index s\<rparr>,
          active_threads := []\<rparr>) [] = Some v"
proof (cases "first_match n (bytecode s) (input s) (input_index s) (blocked_threads s)")
  case None
  with assms(1) show ?thesis by (simp add: expected_of_def expected_def first_match_append)
next
  case (Some r)
  show ?thesis
  proof (cases r)
    case (Some m)
    with \<open>first_match n (bytecode s) (input s) (input_index s) (blocked_threads s) = Some r\<close>
    have f: "first_match n (bytecode s) (input s) (input_index s) (blocked_threads s) =
        Some (Some m)" by simp
    have "expected_of n s (t # xs) = Some (Some m)"
      by (simp add: expected_of_def expected_def
          first_match_append[of _ _ _ _ "blocked_threads s"] f)
    with assms(1) have "v = Some m" by simp
    then show ?thesis
      by (simp add: expected_of_def expected_def mark_def f)
  next
    case None
    with Some have f: "first_match n (bytecode s) (input s) (input_index s) (blocked_threads s) =
        Some None" by simp
    from assms(1) obtain w where
      w: "first_match n (bytecode s) (input s) (input_index s) (blocked_threads s @ t # xs) = Some w"
      by (auto simp: expected_of_def expected_def split: option.splits)
    with f have w': "first_match n (bytecode s) (input s) (input_index s) (t # xs) = Some w"
      by (simp add: first_match_append[of _ _ _ _ "blocked_threads s"])
    then obtain x where x: "bt n (bytecode s) (input s) (pc t) (input_index s) = Some x"
      by (auto split: option.splits)
    from bt_Some_Suc[OF x] obtain k where k: "n = Suc k" by blast
    from x assms(2-4) have "x = Some (input_index s)" unfolding k by (simp add: bt_ACCEPT)
    with x w' have "w = Some \<lparr>range_begin = match_begin t, range_end = input_index s\<rparr>"
      by simp
    with w assms(1) have "v = Some \<lparr>range_begin = match_begin t, range_end = input_index s\<rparr>"
      by (simp add: expected_of_def expected_def)
    then show ?thesis
      by (simp add: expected_of_def expected_def mark_def f)
  qed
qed

lemma RunActiveThread_refines:
  assumes "RunActiveThread s t = Some r"
    and "search_inv lo s" and "thread_inv (bytecode s) lo (input_index s) t"
    and "settled s (t # rev (active_threads s))"
    and "expected_of n s (t # rev (active_threads s)) = Some v"
  shows "\<forall>s'. r = Inr s' \<longrightarrow>
           expected_of n s' (rev (active_threads s')) = Some v \<and>
           (active_threads s' \<noteq> [] \<longrightarrow> settled s' (rev (active_threads s')))"
  using assms
proof (induction rule: RunActiveThread_induct)
  case (error s t e)
  then show ?case by simp
next
  case (processed s t)
  from processed(1) have p: "recorded s (pc t)" by (rule recorded_IsPcProcessed)
  from settled_processed[OF processed(4) p] expected_processed[OF processed(4) p processed(5)]
  show ?case by simp
next
  case (no_instruction s t)
  then show ?case by simp
next
  case (consume s t lo' hi)
  from consume(5) have nn: "0 \<le> pc t" by (simp add: thread_inv_def)
  have a: "active_threads ((mark s (pc t))\<lparr>blocked_threads := blocked_threads s @ [t]\<rparr>) =
      active_threads s" by (simp add: mark_def)
  show ?case
  proof (intro allI impI)
    fix s' assume "Inr ((mark s (pc t))\<lparr>blocked_threads := blocked_threads s @ [t]\<rparr>) =
      Inr s'"
    then have s': "s' = (mark s (pc t))\<lparr>blocked_threads := blocked_threads s @ [t]\<rparr>"
      by simp
    from settled_consume[OF consume(6) nn] consume(7)
    show "expected_of n s' (rev (active_threads s')) = Some v \<and>
      (active_threads s' \<noteq> [] \<longrightarrow> settled s' (rev (active_threads s')))"
      unfolding s' a expected_consume by simp
  qed
next
  case (fork s t target r)
  let ?s1 = "(mark s (pc t))\<lparr>active_threads := active_threads s @ [t\<lparr>pc := target\<rparr>]\<rparr>"
  let ?ys = "[t\<lparr>pc := pc t + 1\<rparr>, t\<lparr>pc := target\<rparr>]"
  from fork(6) have b: "0 \<le> pc t" "pc t < int (length (bytecode s))"
    by (simp_all add: thread_inv_def)
  note does = fork_does[OF b fork(3)] and new = fork_new[OF b fork(3)]
  have 1: "search_inv lo ?s1" using fork(5,6,3) by (rule search_inv_step_fork(1))
  have 2: "thread_inv (bytecode ?s1) lo (input_index ?s1) (t\<lparr>pc := pc t + 1\<rparr>)"
    using search_inv_step_fork(2)[OF fork(5,6,3)] by (simp add: mark_def)
  have "settled ?s1 (?ys @ rev (active_threads s))"
    using fork(7) does new b(1) by (rule settled_step) (simp_all add: mark_def)
  then have 3: "settled ?s1 (t\<lparr>pc := pc t + 1\<rparr> # rev (active_threads ?s1))" by simp
  have "expected_of n ?s1 (?ys @ rev (active_threads s)) = Some v"
    using fork(8) does by (rule expected_step) (simp_all add: mark_def)
  then have 4: "expected_of n ?s1 (t\<lparr>pc := pc t + 1\<rparr> # rev (active_threads ?s1)) = Some v"
    by simp
  from fork(4)[OF 1 2 3 4] show ?case .
next
  case (jmp s t target r)
  let ?s1 = "mark s (pc t)"
  let ?ys = "[t\<lparr>pc := target\<rparr>]"
  from jmp(6) have b: "0 \<le> pc t" "pc t < int (length (bytecode s))"
    by (simp_all add: thread_inv_def)
  note does = jmp_does[OF b jmp(3)] and new = jmp_new[OF b jmp(3)]
  have 1: "search_inv lo ?s1" using jmp(5) by (rule search_inv_mark)
  have 2: "thread_inv (bytecode ?s1) lo (input_index ?s1) (t\<lparr>pc := target\<rparr>)"
    using search_inv_step_jmp[OF jmp(5,6,3)] by (simp add: mark_def)
  have "settled ?s1 (?ys @ rev (active_threads s))"
    using jmp(7) does new b(1) by (rule settled_step) (simp_all add: mark_def)
  then have 3: "settled ?s1 (t\<lparr>pc := target\<rparr> # rev (active_threads ?s1))"
    by (simp add: mark_def)
  have "expected_of n ?s1 (?ys @ rev (active_threads s)) = Some v"
    using jmp(8) does by (rule expected_step) (simp_all add: mark_def)
  then have 4: "expected_of n ?s1 (t\<lparr>pc := target\<rparr> # rev (active_threads ?s1)) = Some v"
    by (simp add: mark_def)
  from jmp(4)[OF 1 2 3 4] show ?case .
next
  case (accept s t)
  from accept(5) have b: "0 \<le> pc t" "pc t < int (length (bytecode s))"
    by (simp_all add: thread_inv_def)
  from expected_accept[OF accept(7) b accept(3)] show ?case by simp
qed

lemma settled_pop:
  assumes "settled s (rev (active_threads s))" and "active_threads s \<noteq> []"
  shows "settled (s\<lparr>active_threads := butlast (active_threads s)\<rparr>)
           (last (active_threads s) #
            rev (active_threads (s\<lparr>active_threads := butlast (active_threads s)\<rparr>)))"
proof -
  from assms(2) have "rev (active_threads s) =
      last (active_threads s) # rev (butlast (active_threads s))"
    by (metis append_butlast_last_id rev.simps(2) rev_rev_ident rev_swap rev_append
        append_Cons append_Nil)
  with assms(1) show ?thesis by (simp add: settled_def recorded_def)
qed

lemma expected_pop:
  assumes "expected_of n s (rev (active_threads s)) = Some v" and "active_threads s \<noteq> []"
  shows "expected_of n (s\<lparr>active_threads := butlast (active_threads s)\<rparr>)
           (last (active_threads s) #
            rev (active_threads (s\<lparr>active_threads := butlast (active_threads s)\<rparr>))) = Some v"
proof -
  from assms(2) have "rev (active_threads s) =
      last (active_threads s) # rev (butlast (active_threads s))"
    by (metis append_butlast_last_id rev.simps(2) rev_rev_ident rev_swap rev_append
        append_Cons append_Nil)
  with assms(1) show ?thesis by (simp add: expected_of_def)
qed

lemma RunActiveThreads_refines:
  assumes "RunActiveThreads s = Some r"
    and "search_inv lo s"
    and "active_threads s \<noteq> [] \<longrightarrow> settled s (rev (active_threads s))"
    and "expected_of n s (rev (active_threads s)) = Some v"
  shows "\<forall>s'. r = Inr s' \<longrightarrow> expected_of n s' [] = Some v"
  using assms
proof (induction rule: RunActiveThreads_induct)
  case (empty s)
  then show ?case by simp
next
  case (error s e)
  then show ?case by simp
next
  case (step s s1 r)
  let ?s0 = "s\<lparr>active_threads := butlast (active_threads s)\<rparr>"
  let ?t = "last (active_threads s)"
  note pop = search_inv_pop[OF step(4,1)]
  from pop(2) have ti: "thread_inv (bytecode ?s0) lo (input_index ?s0) ?t" by simp
  from step(5,1) have "settled s (rev (active_threads s))" by simp
  note st = settled_pop[OF this step(1)]
  note ex = expected_pop[OF step(6) step(1)]
  from RunActiveThread_refines[OF step(2) pop(1) ti st ex]
  have 1: "expected_of n s1 (rev (active_threads s1)) = Some v"
    and 2: "active_threads s1 \<noteq> [] \<longrightarrow> settled s1 (rev (active_threads s1))"
    by simp_all
  from RunActiveThread_search_inv[OF step(2) pop(1) ti] have 3: "search_inv lo s1" by simp
  from step(3)[OF 3 2 1] show ?case .
qed

lemma first_match_feed:
  assumes "first_match n code inp i B = Some x"
    and "0 \<le> i" and "i < int (length inp)"
    and "list_all (\<lambda>t. 0 \<le> pc t \<and> pc t < int (length code) \<and>
                       is_consume (code ! nat (pc t))) B"
  shows "first_match n code inp (i + 1)
           (map advance (filter (consumes code (ucast (inp ! nat i))) B)) = Some x"
  using assms(1,4)
proof (induction B)
  case Nil
  then show ?case by simp
next
  case (Cons t B)
  from Cons.prems(2) have b: "0 \<le> pc t" "pc t < int (length code)"
    and ic: "is_consume (code ! nat (pc t))" and rest: "list_all (\<lambda>t. 0 \<le> pc t \<and>
        pc t < int (length code) \<and> is_consume (code ! nat (pc t))) B"
    by simp_all
  from ic obtain lo hi where c: "code ! nat (pc t) = CONSUME_RANGE lo hi"
    by (auto simp: is_consume_def split: RegExpInstruction.splits)
  from Cons.prems(1) obtain r where r: "bt n code inp (pc t) i = Some r"
    by (auto split: option.splits)
  from bt_Some_Suc[OF r] obtain m where m: "n = Suc m" by blast
  have cons: "consumes code (ucast (inp ! nat i)) t \<longleftrightarrow> in_range inp i lo hi"
    using assms(2,3) c by (simp add: consumes_def in_range_def)
  show ?case
  proof (cases "in_range inp i lo hi")
    case True
    with r b c have "bt m code inp (pc t + 1) (i + 1) = Some r"
      unfolding m by (simp add: bt_CONSUME_RANGE)
    from bt_mono[OF this, of n] have r': "bt n code inp (pc (advance t)) (i + 1) = Some r"
      unfolding m advance_def by simp
    show ?thesis
    proof (cases r)
      case None
      with Cons.prems(1) r have "first_match n code inp i B = Some x" by simp
      from Cons.IH[OF this rest] True cons r' None show ?thesis by simp
    next
      case (Some e)
      with Cons.prems(1) r r' True cons show ?thesis by (simp add: advance_def)
    qed
  next
    case False
    with r b c have "r = None" unfolding m by (simp add: bt_CONSUME_RANGE)
    with Cons.prems(1) r have "first_match n code inp i B = Some x" by simp
    from Cons.IH[OF this rest] False cons show ?thesis by simp
  qed
qed

lemma expected_feed:
  assumes "expected n code inp i B best = Some v"
    and "0 \<le> i" and "i < int (length inp)"
    and "list_all (\<lambda>t. 0 \<le> pc t \<and> pc t < int (length code) \<and>
                       is_consume (code ! nat (pc t))) B"
  shows "expected n code inp (i + 1)
           (map advance (filter (consumes code (ucast (inp ! nat i))) B) @
            (if best = None then [\<lparr>pc = 0, match_begin = i + 1\<rparr>] else []))
           best = Some v"
proof -
  let ?fed = "map advance (filter (consumes code (ucast (inp ! nat i))) B)"
  from assms(1) obtain w where w: "first_match n code inp i B = Some w"
    by (auto simp: expected_def split: option.splits)
  note fed = first_match_feed[OF w assms(2-4)]
  show ?thesis
  proof (cases w)
    case (Some m)
    with w have "expected n code inp i B best = Some (Some m)" by (simp add: expected_def)
    with assms(1) have v: "v = Some m" by simp
    from Some fed have "first_match n code inp (i + 1) ?fed = Some (Some m)" by simp
    then show ?thesis unfolding v
      by (simp add: expected_def first_match_append[of _ _ _ _ ?fed])
  next
    case None
    with fed have fed': "first_match n code inp (i + 1) ?fed = Some None" by simp
    show ?thesis
    proof (cases best)
      case (Some m)
      with None w have "expected n code inp i B best = Some (Some m)"
        by (simp add: expected_def)
      with assms(1) have v: "v = Some m" by simp
      from Some fed' show ?thesis unfolding v by (simp add: expected_def)
    next
      case nb: None
      from assms(3) have k: "nat (int (length inp) - i) = Suc (nat (int (length inp) - (i + 1)))"
        by simp
      from None nb w have "expected n code inp i B best =
          bt_search n code inp (i + 1) (Suc (nat (int (length inp) - (i + 1))))"
        by (simp add: expected_def k)
      with assms(1) have
        bs: "bt_search n code inp (i + 1) (Suc (nat (int (length inp) - (i + 1)))) = Some v"
        by simp
      then obtain x where x: "bt n code inp 0 (i + 1) = Some x"
        by (auto split: option.splits)
      show ?thesis
      proof (cases x)
        case None
        with bs x have "bt_search n code inp (i + 1 + 1) (nat (int (length inp) - (i + 1))) =
            Some v" by simp
        with None x nb fed' show ?thesis
          by (simp add: expected_def first_match_append[of _ _ _ _ ?fed])
      next
        case (Some e)
        with bs x have v: "v = Some \<lparr>range_begin = i + 1, range_end = e\<rparr>" by simp
        from Some x nb fed' show ?thesis unfolding v
          by (simp add: expected_def first_match_append[of _ _ _ _ ?fed])
      qed
    qed
  qed
qed

lemma expected_at_end:
  assumes "expected n code inp (int (length inp)) B best = Some v"
    and "list_all (\<lambda>t. 0 \<le> pc t \<and> pc t < int (length code) \<and>
                       is_consume (code ! nat (pc t))) B"
  shows "v = best"
proof -
  from assms(1) obtain w where w: "first_match n code inp (int (length inp)) B = Some w"
    by (auto simp: expected_def split: option.splits)
  have "w = None" using w assms(2)
  proof (induction B)
    case Nil
    then show ?case by simp
  next
    case (Cons t B)
    from Cons.prems(2) have b: "0 \<le> pc t" "pc t < int (length code)"
      and ic: "is_consume (code ! nat (pc t))" and rest: "list_all (\<lambda>t. 0 \<le> pc t \<and>
          pc t < int (length code) \<and> is_consume (code ! nat (pc t))) B"
      by simp_all
    from ic obtain lo hi where c: "code ! nat (pc t) = CONSUME_RANGE lo hi"
      by (auto simp: is_consume_def split: RegExpInstruction.splits)
    from Cons.prems(1) obtain r where r: "bt n code inp (pc t) (int (length inp)) = Some r"
      by (auto split: option.splits)
    from bt_Some_Suc[OF r] obtain m where m: "n = Suc m" by blast
    from r b c have "r = None" unfolding m by (simp add: bt_CONSUME_RANGE in_range_def)
    with Cons.prems(1) r have "first_match n code inp (int (length inp)) B = Some w" by simp
    from Cons.IH[OF this rest] show ?case .
  qed
  with w assms(1) show ?thesis by (cases best) (simp_all add: expected_def)
qed

lemma bt_search_mono:
  "bt_search n code inp b k = Some r \<Longrightarrow> n \<le> m \<Longrightarrow> bt_search m code inp b k = Some r"
proof (induction k arbitrary: b)
  case 0
  then show ?case by simp
next
  case (Suc k)
  from Suc.prems(1) obtain x where x: "bt n code inp 0 b = Some x"
    by (auto split: option.splits)
  from bt_mono[OF x Suc.prems(2)] have x': "bt m code inp 0 b = Some x" .
  show ?case
  proof (cases x)
    case None
    with Suc.prems(1) x have "bt_search n code inp (b + 1) k = Some r" by simp
    from Suc.IH[OF this Suc.prems(2)] x' None show ?thesis by simp
  next
    case (Some e)
    with Suc.prems(1) x x' show ?thesis by simp
  qed
qed

lemma spec_backtrack_bt:
  assumes "spec_backtrack code inp p i = Some r"
  shows "\<exists>n. bt n code inp p i = Some r"
proof (rule spec_backtrack.raw_induct[OF _ assms])
  fix f and code :: "RegExpInstruction list" and inp :: "'a word list" and p i r
  assume IH: "\<And>code inp p i r. f code inp p i = Some r \<Longrightarrow> \<exists>n. bt n code inp p i = Some r"
    and eq: "(if p < 0 \<or> int (length code) \<le> p then Some None
      else
        (case code ! nat p of
           CONSUME_RANGE lo hi \<Rightarrow>
             if in_range inp i lo hi
             then f code inp (p + 1) (i + 1)
             else Some None
         | FORK target \<Rightarrow>
             Option.bind (f code inp (p + 1) i)
               (\<lambda>r. case r of
                      Some e \<Rightarrow> Some (Some e)
                    | None \<Rightarrow> f code inp target i)
         | JMP target \<Rightarrow> f code inp target i
         | ACCEPT \<Rightarrow> Some (Some i))) = Some r"
  show "\<exists>n. bt n code inp p i = Some r"
  proof (cases "p < 0 \<or> int (length code) \<le> p")
    case True
    with eq have "bt (Suc 0) code inp p i = Some r" by simp
    then show ?thesis by blast
  next
    case False
    show ?thesis
    proof (cases "code ! nat p")
      case (CONSUME_RANGE lo hi)
      show ?thesis
      proof (cases "in_range inp i lo hi")
        case c: True
        with False CONSUME_RANGE eq have "f code inp (p + 1) (i + 1) = Some r" by simp
        from IH[OF this] obtain n where "bt n code inp (p + 1) (i + 1) = Some r" by blast
        with False CONSUME_RANGE c have "bt (Suc n) code inp p i = Some r" by simp
        then show ?thesis by blast
      next
        case c: False
        with False CONSUME_RANGE eq have "bt (Suc 0) code inp p i = Some r" by simp
        then show ?thesis by blast
      qed
    next
      case (FORK target)
      with False eq have e: "Option.bind (f code inp (p + 1) i)
               (\<lambda>r. case r of
                      Some e \<Rightarrow> Some (Some e)
                    | None \<Rightarrow> f code inp target i) = Some r" by simp
      then obtain x where x: "f code inp (p + 1) i = Some x"
        and cont: "(case x of Some e \<Rightarrow> Some (Some e) | None \<Rightarrow> f code inp target i) = Some r"
        by (auto simp: bind_eq_Some_conv)
      from IH[OF x] obtain n1 where n1: "bt n1 code inp (p + 1) i = Some x" by blast
      show ?thesis
      proof (cases x)
        case None
        with cont have "f code inp target i = Some r" by simp
        from IH[OF this] obtain n2 where n2: "bt n2 code inp target i = Some r" by blast
        from bt_mono[OF n1, of "max n1 n2"] bt_mono[OF n2, of "max n1 n2"] None False FORK
        have "bt (Suc (max n1 n2)) code inp p i = Some r" by simp
        then show ?thesis by blast
      next
        case (Some e)
        with cont n1 False FORK have "bt (Suc n1) code inp p i = Some r" by auto
        then show ?thesis by blast
      qed
    next
      case (JMP target)
      with False eq have "f code inp target i = Some r" by simp
      from IH[OF this] obtain n where "bt n code inp target i = Some r" by blast
      with False JMP have "bt (Suc n) code inp p i = Some r" by simp
      then show ?thesis by blast
    next
      case ACCEPT
      with False eq have "bt (Suc 0) code inp p i = Some r" by simp
      then show ?thesis by blast
    qed
  qed
qed

lemma spec_backtrack_search_bt:
  assumes "spec_backtrack_search code inp b = Some r"
  shows "\<exists>n. bt_search n code inp b (nat (int (length inp) - b + 1)) = Some r"
proof (rule spec_backtrack_search.raw_induct[OF _ assms])
  fix f and code :: "RegExpInstruction list" and inp :: "'a word list" and b r
  assume IH: "\<And>code inp b r. f code inp b = Some r \<Longrightarrow>
      \<exists>n. bt_search n code inp b (nat (int (length inp) - b + 1)) = Some r"
    and eq: "(if int (length inp) < b then Some None
      else
        (case spec_backtrack code inp 0 b of
           None \<Rightarrow> None
         | Some (Some e) \<Rightarrow> Some (Some \<lparr>range_begin = b, range_end = e\<rparr>)
         | Some None \<Rightarrow> f code inp (b + 1))) = Some r"
  show "\<exists>n. bt_search n code inp b (nat (int (length inp) - b + 1)) = Some r"
  proof (cases "int (length inp) < b")
    case True
    with eq have "r = None" by simp
    moreover from True have "nat (int (length inp) - b + 1) = 0" by simp
    ultimately show ?thesis by simp
  next
    case False
    then have k: "nat (int (length inp) - b + 1) = Suc (nat (int (length inp) - (b + 1) + 1))"
      by simp
    from False eq obtain x where x: "spec_backtrack code inp 0 b = Some x"
      by (auto split: option.splits)
    from spec_backtrack_bt[OF x] obtain n1 where n1: "bt n1 code inp 0 b = Some x" by blast
    show ?thesis
    proof (cases x)
      case None
      with False eq x have "f code inp (b + 1) = Some r" by simp
      from IH[OF this] obtain n2 where
        n2: "bt_search n2 code inp (b + 1) (nat (int (length inp) - (b + 1) + 1)) = Some r"
        by blast
      from bt_mono[OF n1, of "max n1 n2"] bt_search_mono[OF n2, of "max n1 n2"] None
      have "bt_search (max n1 n2) code inp b (nat (int (length inp) - b + 1)) = Some r"
        unfolding k by simp
      then show ?thesis by blast
    next
      case (Some e)
      with False eq x n1 have "bt_search n1 code inp b (nat (int (length inp) - b + 1)) = Some r"
        unfolding k by simp
      then show ?thesis by blast
    qed
  qed
qed

lemma settled_fresh:
  assumes "list_all (\<lambda>x. x < input_index s) (pc_last_input_index s)"
  shows "settled s xs"
proof -
  have "\<not> recorded s p" for p
  proof
    assume "recorded s p"
    then have "nat p < length (pc_last_input_index s)"
      "pc_last_input_index s ! nat p = input_index s" by (auto simp: recorded_def)
    with assms show False by (auto simp: list_all_length)
  qed
  then show ?thesis by (simp add: settled_def)
qed

lemma FindNextMatch_loop_refines:
  assumes "FindNextMatch_loop s = Some r" and "search_inv lo s" and "active_threads s = []"
    and "expected_of n s [] = Some v"
  shows "\<forall>s'. r = Inr s' \<longrightarrow> best_match s' = v"
  using assms
proof (induction rule: FindNextMatch_loop_induct)
  case (exit s)
  from exit(2) have bo: "list_all (\<lambda>t. 0 \<le> pc t \<and> pc t < int (length (bytecode s)) \<and>
      is_consume (bytecode s ! nat (pc t))) (blocked_threads s)"
    by (simp add: search_inv_def blocked_ok_def)
  from exit(1) have "input_index s = int (length (input s)) \<or>
      (best_match s \<noteq> None \<and> blocked_threads s = [])" by blast
  then have "v = best_match s"
  proof
    assume "input_index s = int (length (input s))"
    with exit(4) have "expected n (bytecode s) (input s) (int (length (input s)))
        (blocked_threads s) (best_match s) = Some v" by (simp add: expected_of_def)
    from expected_at_end[OF this bo] show ?thesis .
  next
    assume "best_match s \<noteq> None \<and> blocked_threads s = []"
    with exit(4) show ?thesis by (auto simp: expected_of_def expected_def)
  qed
  then show ?case by simp
next
  case (dcheck s)
  then show ?case by simp
next
  case (bounds s)
  then show ?case by simp
next
  case (flush_error s e)
  then show ?case by simp
next
  case (run_error s s3 e)
  then show ?case by simp
next
  case (step s s3 s4 r)
  let ?c = "next_char s"
  from step(7) have bok: "blocked_ok (seed s)" by (simp add: search_inv_def blocked_ok_def)
  from step(7) have bo: "list_all (\<lambda>t. 0 \<le> pc t \<and> pc t < int (length (bytecode s)) \<and>
      is_consume (bytecode s ! nat (pc t))) (blocked_threads s)"
    by (simp add: search_inv_def blocked_ok_def)
  from step(4) FlushBlockedThreads_eq[OF bok, of ?c]
  have s3: "s3 = (seed s)\<lparr>active_threads := active_threads (seed s) @
              map advance (filter (consumes (bytecode s) ?c) (rev (blocked_threads s))),
            blocked_threads := []\<rparr>" by simp
  from step(1) have lt: "input_index s < int (length (input s))" by (simp add: searching_def)
  from search_inv_feed[OF step(7,1,3,4)] have inv3: "search_inv lo s3" by simp
  have act: "rev (active_threads s3) =
      map advance (filter (consumes (bytecode s) ?c) (blocked_threads s)) @
      (if best_match s = None then [\<lparr>pc = 0, match_begin = input_index s + 1\<rparr>] else [])"
    unfolding s3 using step(3) by (simp add: seed_def rev_map rev_filter)
  from step(9) have "expected n (bytecode s) (input s) (input_index s)
      (blocked_threads s) (best_match s) = Some v" by (simp add: expected_of_def)
  from expected_feed[OF this step(2) lt bo]
  have ex3: "expected_of n s3 (rev (active_threads s3)) = Some v"
    unfolding act unfolding expected_of_def s3 by (simp add: next_char_def)
  from step(7) have "list_all (\<lambda>x. x \<le> input_index s) (pc_last_input_index s)"
    by (simp add: search_inv_def)
  then have "list_all (\<lambda>x. x < input_index s3) (pc_last_input_index s3)"
    unfolding s3 by (auto simp: list_all_iff)
  then have st3: "active_threads s3 \<noteq> [] \<longrightarrow> settled s3 (rev (active_threads s3))"
    by (simp add: settled_fresh)
  from RunActiveThreads_refines[OF step(5) inv3 st3 ex3]
  have ex4: "expected_of n s4 [] = Some v" by simp
  from RunActiveThreads_search_inv[OF step(5) inv3]
  have "search_inv lo s4" "active_threads s4 = []" by simp_all
  from step(6)[OF this ex4] show ?case .
qed

lemma found_at_refines:
  fixes inp :: "'c::len word list"
  assumes "well_formed code" and "0 \<le> start" and "start \<le> int (length inp)"
    and "bt_search n code inp start (nat (int (length inp) - start + 1)) = Some v"
  shows "found_at code inp start v"
proof -
  let ?s0 = "\<lparr>bytecode = code, input = inp, input_index = start,
                pc_last_input_index = replicate (length code) (- 1),
                active_threads = [], blocked_threads = [], best_match = None\<rparr>"
  from assms(1) have ne: "code \<noteq> []" by (simp add: well_formed_def)
  have new: "NfaInterpreter_new code inp start = Inr ?s0"
    using ne assms(2,3) by (simp add: NfaInterpreter_new_def)
  have cl: "clean ?s0" by (simp add: clean_def)
  have inv: "search_inv start (start_search ?s0)"
    using search_inv_start_search[of ?s0] assms(1-3) cl by simp
  obtain r where r: "RunActiveThreads (start_search ?s0) = Some r"
    using RunActiveThreads_returns by blast
  from RunActiveThreads_search_inv[OF r inv] obtain s2 where
    s2: "r = Inr s2" "search_inv start s2" "active_threads s2 = []" by blast
  from assms(3) have k: "nat (int (length inp) - start + 1) = Suc (nat (int (length inp) - start))"
    by simp
  have ex0: "expected_of n (start_search ?s0) (rev (active_threads (start_search ?s0))) = Some v"
    using assms(4) unfolding k
    by (auto simp: expected_of_def expected_def start_search_def split: option.splits)
  have "list_all (\<lambda>x. x < input_index (start_search ?s0))
          (pc_last_input_index (start_search ?s0))"
    using assms(2) by (simp add: start_search_def list_all_iff)
  then have st0: "active_threads (start_search ?s0) \<noteq> [] \<longrightarrow>
      settled (start_search ?s0) (rev (active_threads (start_search ?s0)))"
    by (simp add: settled_fresh)
  from RunActiveThreads_refines[OF r inv st0 ex0] s2(1)
  have ex2: "expected_of n s2 [] = Some v" by simp
  obtain r' where r': "FindNextMatch_loop s2 = Some r'"
    using FindNextMatch_loop_returns by blast
  from FindNextMatch_loop_search_inv[OF r' s2(2,3)] obtain s3 where s3: "r' = Inr s3"
    by blast
  from FindNextMatch_loop_refines[OF r' s2(2,3) ex2] s3 have "best_match s3 = v" by simp
  with FindNextMatch_start_search[OF cl] r s2(1) r' s3 new show ?thesis
    by (simp add: found_at_def)
qed

lemma epsilon_cycle_bt:
  "bt n epsilon_cycle inp 0 i = None \<and> bt n epsilon_cycle inp 1 i = None"
  by (induction n) (simp_all add: epsilon_cycle_def)

lemma epsilon_cycle_diverges: "spec_backtrack epsilon_cycle inp 0 i = None"
proof (cases "spec_backtrack epsilon_cycle inp 0 i")
  case None
  then show ?thesis .
next
  case (Some r)
  from spec_backtrack_bt[OF this] epsilon_cycle_bt[of _ inp i] show ?thesis by simp
qed

subsection \<open>The program of scenario 1\<close>

lemma scenario1_labels:
  "list_all (\<lambda>e. well_formed (scenario1 e) \<and>
               found_at (scenario1 e) scenario1_input 0
                 (Some \<lparr>range_begin = 0, range_end = 3\<rparr>))
     [0, 1, 2, 3, 4, 5, 6, 7, 8, 9, 10, 11, 12]"
  by code_simp

lemma scenario1_label_cases:
  assumes "0 \<le> e" and "e < 13"
  shows "e \<in> set [0, 1, 2, 3, 4, 5, 6, 7, 8, 9, 10, 11, 12 :: int]"
proof -
  from assms have "e = 0 \<or> e = 1 \<or> e = 2 \<or> e = 3 \<or> e = 4 \<or> e = 5 \<or> e = 6 \<or> e = 7 \<or>
    e = 8 \<or> e = 9 \<or> e = 10 \<or> e = 11 \<or> e = 12" by arith
  then show ?thesis by auto
qed

section \<open>The claims of the specification\<close>

text \<open>
  Claim C4.  When the thread that is being stepped stands at an \<^verbatim>\<open>ACCEPT\<close> instruction
  that was not yet processed at the current input index, the best match becomes the range
  from the thread's \<open>match_begin\<close> to the input index, the active threads are discarded
  and the call returns; the blocked threads are left as they were.  The second part says
  the same of a call that reaches \<^verbatim>\<open>ACCEPT\<close> after some \<^verbatim>\<open>FORK\<close> and
  \<^verbatim>\<open>JMP\<close> steps: a call that changes the best match changes it in this way only.
\<close>

theorem accept_commits_match:
  "(IsPcProcessed s (pc t) = Inr False \<longrightarrow> pc t < int (length (bytecode s)) \<longrightarrow>
    bytecode s ! nat (pc t) = ACCEPT \<longrightarrow>
    RunActiveThread s t =
      Some (Inr (s\<lparr>pc_last_input_index := (pc_last_input_index s)[nat (pc t) := input_index s],
                   best_match := Some \<lparr>range_begin = match_begin t, range_end = input_index s\<rparr>,
                   active_threads := []\<rparr>))) \<and>
   (RunActiveThread s t = Some (Inr s') \<longrightarrow> best_match s' \<noteq> best_match s \<longrightarrow>
    best_match s' = Some \<lparr>range_begin = match_begin t, range_end = input_index s\<rparr> \<and>
    active_threads s' = [] \<and> blocked_threads s' = blocked_threads s)"
proof (intro conjI impI)
  assume "IsPcProcessed s (pc t) = Inr False" and lt: "pc t < int (length (bytecode s))"
    and ins: "bytecode s ! nat (pc t) = ACCEPT"
  then have "runnable s (pc t)" by (simp add: runnable_iff)
  from RunActiveThread_ACCEPT[OF this lt ins]
  show "RunActiveThread s t =
      Some (Inr (s\<lparr>pc_last_input_index := (pc_last_input_index s)[nat (pc t) := input_index s],
                   best_match := Some \<lparr>range_begin = match_begin t, range_end = input_index s\<rparr>,
                   active_threads := []\<rparr>))"
    by (simp add: mark_def)
next
  assume run: "RunActiveThread s t = Some (Inr s')" and neq: "best_match s' \<noteq> best_match s"
  from RunActiveThread_outcome[OF run refl] neq
  have *: "best_match s' = Some \<lparr>range_begin = match_begin t, range_end = input_index s\<rparr> \<and>
      active_threads s' = [] \<and> blocked_threads s' = blocked_threads s"
    unfolding outcome_def by blast
  from * show "best_match s' = Some \<lparr>range_begin = match_begin t, range_end = input_index s\<rparr>"
    by simp
  from * show "active_threads s' = []" by simp
  from * show "blocked_threads s' = blocked_threads s" by simp
qed

theorem accept_commits_match_witness:
  "IsPcProcessed example_state (pc (example_thread 2)) = Inr False \<and>
   pc (example_thread 2) < int (length (bytecode example_state)) \<and>
   bytecode example_state ! nat (pc (example_thread 2)) = ACCEPT \<and>
   RunActiveThread example_state (example_thread 2) =
     Some (Inr (example_state\<lparr>pc_last_input_index := [- 1, - 1, 0],
                  best_match := Some \<lparr>range_begin = 0, range_end = 0\<rparr>\<rparr>)) \<and>
   best_match (example_state\<lparr>pc_last_input_index := [- 1, - 1, 0],
                  best_match := Some \<lparr>range_begin = 0, range_end = 0\<rparr>\<rparr>)
     \<noteq> best_match example_state"
proof -
  have h: "IsPcProcessed example_state (pc (example_thread 2)) = Inr False"
    "pc (example_thread 2) < int (length (bytecode example_state))"
    "bytecode example_state ! nat (pc (example_thread 2)) = ACCEPT"
    by (simp_all add: IsPcProcessed_def example_state_def example_thread_def)
  from accept_commits_match[of example_state "example_thread 2", THEN conjunct1] h
  have "RunActiveThread example_state (example_thread 2) =
      Some (Inr (example_state\<lparr>pc_last_input_index :=
                     (pc_last_input_index example_state)
                       [nat (pc (example_thread 2)) := input_index example_state],
                   best_match := Some \<lparr>range_begin = match_begin (example_thread 2),
                                        range_end = input_index example_state\<rparr>,
                   active_threads := []\<rparr>))"
    by blast
  with h show ?thesis
    by (simp add: example_state_def example_thread_def)
qed

text \<open>
  Claim C5.  At a \<^verbatim>\<open>FORK\<close> instruction a copy of the thread with the target as its
  program counter is appended to the active threads, and the same call goes on with the
  thread at the next program counter.  The drain of the active threads returns when no
  thread is active; otherwise it takes the last active thread off, steps it with one call
  of the stepper, and goes on as the drain does from the state that the call leaves.  So
  the drain of a thread at a \<^verbatim>\<open>FORK\<close> first completes the call of the stepper on the
  continuation, with the forked copy among the active threads, and only then pops again;
  it is the same as pushing the forked copy and then the continuation on top of it.
  While the call runs, the threads that were already active (the forked copy among them)
  stay where they are, below whatever the continuation adds, unless an \<^verbatim>\<open>ACCEPT\<close>
  discards them all: the forked copy is popped after every thread that the continuation
  left active.
\<close>

theorem fork_continues_in_place:
  "(IsPcProcessed s (pc t) = Inr False \<longrightarrow> pc t < int (length (bytecode s)) \<longrightarrow>
    bytecode s ! nat (pc t) = FORK target \<longrightarrow>
    RunActiveThread s t =
      RunActiveThread
        (s\<lparr>pc_last_input_index := (pc_last_input_index s)[nat (pc t) := input_index s],
           active_threads := active_threads s @ [t\<lparr>pc := target\<rparr>]\<rparr>)
        (t\<lparr>pc := pc t + 1\<rparr>) \<and>
    RunActiveThreads (s\<lparr>active_threads := active_threads s @ [t]\<rparr>) =
      RunActiveThreads
        (s\<lparr>pc_last_input_index := (pc_last_input_index s)[nat (pc t) := input_index s],
           active_threads := active_threads s @ [t\<lparr>pc := target\<rparr>, t\<lparr>pc := pc t + 1\<rparr>]\<rparr>) \<and>
    RunActiveThreads (s\<lparr>active_threads := active_threads s @ [t]\<rparr>) =
      (case RunActiveThread
              (s\<lparr>pc_last_input_index := (pc_last_input_index s)[nat (pc t) := input_index s],
                 active_threads := active_threads s @ [t\<lparr>pc := target\<rparr>]\<rparr>)
              (t\<lparr>pc := pc t + 1\<rparr>) of
         None \<Rightarrow> None
       | Some (Inl e) \<Rightarrow> Some (Inl e)
       | Some (Inr s1) \<Rightarrow> RunActiveThreads s1)) \<and>
   (active_threads s = [] \<longrightarrow> RunActiveThreads s = Some (Inr s)) \<and>
   (active_threads s \<noteq> [] \<longrightarrow>
    RunActiveThreads s =
      (case RunActiveThread (s\<lparr>active_threads := butlast (active_threads s)\<rparr>)
              (last (active_threads s)) of
         None \<Rightarrow> None
       | Some (Inl e) \<Rightarrow> Some (Inl e)
       | Some (Inr s1) \<Rightarrow> RunActiveThreads s1)) \<and>
   (RunActiveThread s t = Some (Inr s') \<longrightarrow>
    active_threads s' = [] \<and>
      best_match s' = Some \<lparr>range_begin = match_begin t, range_end = input_index s\<rparr> \<or>
    (\<exists>ext. active_threads s' = active_threads s @ ext))"
proof (intro conjI impI)
  assume "IsPcProcessed s (pc t) = Inr False" and lt: "pc t < int (length (bytecode s))"
    and ins: "bytecode s ! nat (pc t) = FORK target"
  then have run: "runnable s (pc t)" by (simp add: runnable_iff)
  let ?s1 = "s\<lparr>pc_last_input_index := (pc_last_input_index s)[nat (pc t) := input_index s],
           active_threads := active_threads s @ [t\<lparr>pc := target\<rparr>]\<rparr>"
  from RunActiveThread_FORK[OF run lt ins]
  show step: "RunActiveThread s t = RunActiveThread ?s1 (t\<lparr>pc := pc t + 1\<rparr>)"
    by (simp add: mark_def)
  have pop: "RunActiveThreads (s\<lparr>active_threads := active_threads s @ [t]\<rparr>) =
      (case RunActiveThread s t of
         None \<Rightarrow> None
       | Some (Inl e) \<Rightarrow> Some (Inl e)
       | Some (Inr s1) \<Rightarrow> RunActiveThreads s1)"
    by (subst RunActiveThreads_pop) simp_all
  moreover have "RunActiveThreads
        (s\<lparr>pc_last_input_index := (pc_last_input_index s)[nat (pc t) := input_index s],
           active_threads := active_threads s @ [t\<lparr>pc := target\<rparr>, t\<lparr>pc := pc t + 1\<rparr>]\<rparr>) =
      (case RunActiveThread ?s1 (t\<lparr>pc := pc t + 1\<rparr>) of
         None \<Rightarrow> None
       | Some (Inl e) \<Rightarrow> Some (Inl e)
       | Some (Inr s1) \<Rightarrow> RunActiveThreads s1)"
    by (subst RunActiveThreads_pop) (simp_all add: butlast_append)
  ultimately show "RunActiveThreads (s\<lparr>active_threads := active_threads s @ [t]\<rparr>) =
      RunActiveThreads
        (s\<lparr>pc_last_input_index := (pc_last_input_index s)[nat (pc t) := input_index s],
           active_threads := active_threads s @ [t\<lparr>pc := target\<rparr>, t\<lparr>pc := pc t + 1\<rparr>]\<rparr>)"
    by (simp only: step)
  from pop show "RunActiveThreads (s\<lparr>active_threads := active_threads s @ [t]\<rparr>) =
      (case RunActiveThread ?s1 (t\<lparr>pc := pc t + 1\<rparr>) of
         None \<Rightarrow> None
       | Some (Inl e) \<Rightarrow> Some (Inl e)
       | Some (Inr s1) \<Rightarrow> RunActiveThreads s1)"
    by (simp only: step)
next
  assume "active_threads s = []"
  then show "RunActiveThreads s = Some (Inr s)" by (rule RunActiveThreads_empty)
next
  assume "active_threads s \<noteq> []"
  then show "RunActiveThreads s =
      (case RunActiveThread (s\<lparr>active_threads := butlast (active_threads s)\<rparr>)
              (last (active_threads s)) of
         None \<Rightarrow> None
       | Some (Inl e) \<Rightarrow> Some (Inl e)
       | Some (Inr s1) \<Rightarrow> RunActiveThreads s1)"
    by (rule RunActiveThreads_pop)
next
  assume run: "RunActiveThread s t = Some (Inr s')"
  from RunActiveThread_outcome[OF run refl]
  show "active_threads s' = [] \<and>
      best_match s' = Some \<lparr>range_begin = match_begin t, range_end = input_index s\<rparr> \<or>
    (\<exists>ext. active_threads s' = active_threads s @ ext)"
    unfolding outcome_def by blast
qed

theorem fork_continues_in_place_witness:
  "IsPcProcessed example_state (pc (example_thread 0)) = Inr False \<and>
   pc (example_thread 0) < int (length (bytecode example_state)) \<and>
   bytecode example_state ! nat (pc (example_thread 0)) = FORK 2 \<and>
   RunActiveThread example_state (example_thread 0) =
     Some (Inr (example_state\<lparr>pc_last_input_index := [0, 0, - 1],
                  active_threads := [example_thread 2],
                  blocked_threads := [example_thread 1]\<rparr>)) \<and>
   RunActiveThreads (example_state\<lparr>active_threads := [example_thread 0]\<rparr>) =
     RunActiveThreads (example_state\<lparr>pc_last_input_index := [0, - 1, - 1],
                         active_threads := [example_thread 2, example_thread 1]\<rparr>) \<and>
   RunActiveThreads (example_state\<lparr>active_threads := [example_thread 0]\<rparr>) =
     RunActiveThreads (example_state\<lparr>pc_last_input_index := [0, 0, - 1],
                         active_threads := [example_thread 2],
                         blocked_threads := [example_thread 1]\<rparr>) \<and>
   RunActiveThreads (example_state\<lparr>active_threads := [example_thread 0]\<rparr>) =
     Some (Inr (example_state\<lparr>pc_last_input_index := [0, 0, 0],
                  blocked_threads := [example_thread 1],
                  best_match := Some \<lparr>range_begin = 0, range_end = 0\<rparr>\<rparr>))"
proof -
  have h: "IsPcProcessed example_state (pc (example_thread 0)) = Inr False"
    "pc (example_thread 0) < int (length (bytecode example_state))"
    "bytecode example_state ! nat (pc (example_thread 0)) = FORK 2"
    by (simp_all add: IsPcProcessed_def example_state_def example_thread_def)
  have r: "RunActiveThread example_state (example_thread 0) =
     Some (Inr (example_state\<lparr>pc_last_input_index := [0, 0, - 1],
                  active_threads := [example_thread 2],
                  blocked_threads := [example_thread 1]\<rparr>))"
    by code_simp
  have v: "RunActiveThreads (example_state\<lparr>active_threads := [example_thread 0]\<rparr>) =
     Some (Inr (example_state\<lparr>pc_last_input_index := [0, 0, 0],
                  blocked_threads := [example_thread 1],
                  best_match := Some \<lparr>range_begin = 0, range_end = 0\<rparr>\<rparr>))"
    by code_simp
  note T = fork_continues_in_place[of example_state "example_thread 0" 2, THEN conjunct1,
      THEN mp, THEN mp, THEN mp, OF h]
  have a: "active_threads example_state = []" by (simp add: example_state_def)
  have p: "pc_last_input_index example_state = [- 1, - 1, - 1]"
    "input_index example_state = 0" "pc (example_thread 0) = 0"
    by (simp_all add: example_state_def example_thread_def)
  from T[THEN conjunct2, THEN conjunct1]
  have e1: "RunActiveThreads (example_state\<lparr>active_threads := [example_thread 0]\<rparr>) =
     RunActiveThreads (example_state\<lparr>pc_last_input_index := [0, - 1, - 1],
                         active_threads := [example_thread 2, example_thread 1]\<rparr>)"
    unfolding a p by (simp add: example_thread_def)
  from T[THEN conjunct2, THEN conjunct2] r[unfolded T[THEN conjunct1]]
  have e2: "RunActiveThreads (example_state\<lparr>active_threads := [example_thread 0]\<rparr>) =
     RunActiveThreads (example_state\<lparr>pc_last_input_index := [0, 0, - 1],
                         active_threads := [example_thread 2],
                         blocked_threads := [example_thread 1]\<rparr>)"
    unfolding a p by simp
  show ?thesis by (intro conjI h r e1 e2 v)
qed

text \<open>
  Claim C6.  For every code unit \<open>c\<close>, flushing the blocked threads walks through them from
  the last to the first, appends to the active threads each thread whose range holds \<open>c\<close>,
  with its program counter advanced by one, drops the others and leaves no blocked thread.
  The blocked threads are ordered from high to low priority, so that the threads appended
  to the active threads are ordered from low to high priority.
\<close>

theorem flush_feeds_blocked_threads_in_reverse:
  "blocked_ok s \<Longrightarrow>
   FlushBlockedThreads s c =
     Inr (s\<lparr>active_threads := active_threads s @
              map advance (filter (consumes (bytecode s) c) (rev (blocked_threads s))),
            blocked_threads := []\<rparr>)"
  by (rule FlushBlockedThreads_eq)

theorem flush_feeds_blocked_threads_in_reverse_witness:
  "blocked_ok example_blocked \<and>
   FlushBlockedThreads example_blocked 97 =
     Inr (example_blocked\<lparr>active_threads :=
            [\<lparr>pc = 0, match_begin = 1\<rparr>, example_thread 3, example_thread 1],
            blocked_threads := []\<rparr>)"
proof -
  have h: "blocked_ok example_blocked"
    by (simp add: blocked_ok_def example_blocked_def example_thread_def is_consume_def)
  from flush_feeds_blocked_threads_in_reverse[OF h, of 97] h show ?thesis
    by (simp add: example_blocked_def example_thread_def consumes_def advance_def)
qed

text \<open>
  Claim C3.  \<^verbatim>\<open>FindNextMatch\<close> drains the active threads of the start index, runs its
  loop and returns the best match of the state in which the loop ends.  In a state whose
  input index lies within the input the loop does the following.  When the index is the
  length of the input, or a best match is set and no thread is blocked, it returns the
  state as it is: no code unit is read and the match is the one that was committed.
  Otherwise it runs one iteration, which reads exactly one code unit (the index grows by
  one), and then goes on as the loop does from the state after the iteration, where the
  condition is tested again.  So the loop ends in a state where the condition is false,
  with a greater index whenever it ran an iteration; and when a search of one match
  returns below the end of the input it returns a match.
\<close>

theorem search_loop_runs_while_undecided:
  fixes s :: "'c::len word NfaInterpreter"
  shows
  "(active_threads s = [] \<and> blocked_threads s = [] \<and> best_match s = None \<longrightarrow>
      FindNextMatch s =
        (case RunActiveThreads (start_search s) of
           None \<Rightarrow> None
         | Some (Inl e) \<Rightarrow> Some (Inl e)
         | Some (Inr s2) \<Rightarrow>
             (case FindNextMatch_loop s2 of
                None \<Rightarrow> None
              | Some (Inl e) \<Rightarrow> Some (Inl e)
              | Some (Inr s3) \<Rightarrow>
                  Some (Inr (best_match s3,
                             s3\<lparr>best_match := None, blocked_threads := [],
                                active_threads := []\<rparr>)))) \<and>
      (\<forall>m s'. FindNextMatch s = Some (Inr (m, s')) \<longrightarrow>
         input_index s' = int (length (input s')) \<or> m \<noteq> None)) \<and>
   (0 \<le> input_index s \<and> input_index s \<le> int (length (input s)) \<longrightarrow>
      (\<not> (input_index s < int (length (input s)) \<and>
          \<not> (best_match s \<noteq> None \<and> blocked_threads s = [])) \<longrightarrow>
       FindNextMatch_loop s = Some (Inr s)) \<and>
      (input_index s < int (length (input s)) \<and>
       \<not> (best_match s \<noteq> None \<and> blocked_threads s = []) \<and> active_threads s = [] \<longrightarrow>
       FindNextMatch_loop s =
         (case FlushBlockedThreads (seed s) (next_char s) of
            Inl e \<Rightarrow> Some (Inl e)
          | Inr s3 \<Rightarrow>
              (case RunActiveThreads s3 of
                 None \<Rightarrow> None
               | Some (Inl e) \<Rightarrow> Some (Inl e)
               | Some (Inr s4) \<Rightarrow> FindNextMatch_loop s4)) \<and>
       input_index (seed s) = input_index s + 1 \<and>
       (\<forall>s3 s4. FlushBlockedThreads (seed s) (next_char s) = Inr s3 \<longrightarrow>
          RunActiveThreads s3 = Some (Inr s4) \<longrightarrow>
          input_index s4 = input_index s + 1 \<and> input s4 = input s)) \<and>
      (input_index s < int (length (input s)) \<and>
       \<not> (best_match s \<noteq> None \<and> blocked_threads s = []) \<longrightarrow>
       (\<forall>s'. FindNextMatch_loop s = Some (Inr s') \<longrightarrow> input_index s < input_index s')) \<and>
      (\<forall>s'. FindNextMatch_loop s = Some (Inr s') \<longrightarrow>
         \<not> (input_index s' < int (length (input s')) \<and>
            \<not> (best_match s' \<noteq> None \<and> blocked_threads s' = []))) \<and>
      (\<forall>m. best_match s = Some m \<and> blocked_threads s = [] \<longrightarrow>
         FindNextMatch_loop s = Some (Inr s)))"
proof (intro conjI impI allI)
  assume c: "active_threads s = [] \<and> blocked_threads s = [] \<and> best_match s = None"
  then show eq: "FindNextMatch s =
        (case RunActiveThreads (start_search s) of
           None \<Rightarrow> None
         | Some (Inl e) \<Rightarrow> Some (Inl e)
         | Some (Inr s2) \<Rightarrow>
             (case FindNextMatch_loop s2 of
                None \<Rightarrow> None
              | Some (Inl e) \<Rightarrow> Some (Inl e)
              | Some (Inr s3) \<Rightarrow>
                  Some (Inr (best_match s3,
                             s3\<lparr>best_match := None, blocked_threads := [],
                                active_threads := []\<rparr>))))"
    by (simp add: FindNextMatch_def Let_def start_search_def)
  fix m s'
  assume r: "FindNextMatch s = Some (Inr (m, s'))"
  with eq obtain s2 s3 where s2: "RunActiveThreads (start_search s) = Some (Inr s2)"
    and s3: "FindNextMatch_loop s2 = Some (Inr s3)"
    and m: "m = best_match s3"
    and s': "s' = s3\<lparr>best_match := None, blocked_threads := [], active_threads := []\<rparr>"
    by (auto split: option.splits sum.splits)
  from FindNextMatch_loop_index[OF s3 refl]
  have "input_index s3 = int (length (input s3)) \<or> best_match s3 \<noteq> None" by blast
  with m s' show "input_index s' = int (length (input s')) \<or> m \<noteq> None" by simp
next
  assume b: "0 \<le> input_index s \<and> input_index s \<le> int (length (input s))"
  {
    assume "\<not> (input_index s < int (length (input s)) \<and>
             \<not> (best_match s \<noteq> None \<and> blocked_threads s = []))"
    with b show "FindNextMatch_loop s = Some (Inr s)"
      by (intro FindNextMatch_loop_exit) auto
  }
  {
    assume a: "input_index s < int (length (input s)) \<and>
       \<not> (best_match s \<noteq> None \<and> blocked_threads s = []) \<and> active_threads s = []"
    then have se: "searching s" by (simp add: searching_def)
    from b a FindNextMatch_loop_iterate[OF se]
    show "FindNextMatch_loop s =
         (case FlushBlockedThreads (seed s) (next_char s) of
            Inl e \<Rightarrow> Some (Inl e)
          | Inr s3 \<Rightarrow>
              (case RunActiveThreads s3 of
                 None \<Rightarrow> None
               | Some (Inl e) \<Rightarrow> Some (Inl e)
               | Some (Inr s4) \<Rightarrow> FindNextMatch_loop s4))" by simp
    show "input_index (seed s) = input_index s + 1" by simp
    fix s3 s4
    assume f: "FlushBlockedThreads (seed s) (next_char s) = Inr s3"
      and r: "RunActiveThreads s3 = Some (Inr s4)"
    from FlushBlockedThreads_frame[OF f] RunActiveThreads_frame[OF r refl]
    show "input_index s4 = input_index s + 1" "input s4 = input s" by simp_all
  }
  {
    fix s'
    assume "input_index s < int (length (input s)) \<and>
          \<not> (best_match s \<noteq> None \<and> blocked_threads s = [])"
      and "FindNextMatch_loop s = Some (Inr s')"
    with FindNextMatch_loop_index[of s "Inr s'" s']
    show "input_index s < input_index s'" by (auto simp: searching_def)
  }
  {
    fix s'
    assume "FindNextMatch_loop s = Some (Inr s')"
    from FindNextMatch_loop_index[OF this refl]
    show "\<not> (input_index s' < int (length (input s')) \<and>
               \<not> (best_match s' \<noteq> None \<and> blocked_threads s' = []))" by auto
  }
  {
    fix m
    assume "best_match s = Some m \<and> blocked_threads s = []"
    then show "FindNextMatch_loop s = Some (Inr s)"
      by (intro FindNextMatch_loop_exit) auto
  }
qed

theorem search_loop_runs_while_undecided_witness:
  "active_threads example_search = [] \<and> blocked_threads example_search = [] \<and>
   best_match example_search = None \<and>
   FindNextMatch example_search =
     Some (Inr (Some \<lparr>range_begin = 0, range_end = 1\<rparr>,
                example_search\<lparr>input_index := 1, pc_last_input_index := [0, 1]\<rparr>)) \<and>
   RunActiveThreads (start_search example_search) = Some (Inr example_loop_head) \<and>
   0 \<le> input_index example_loop_head \<and>
   input_index example_loop_head < int (length (input example_loop_head)) \<and>
   \<not> (best_match example_loop_head \<noteq> None \<and> blocked_threads example_loop_head = []) \<and>
   active_threads example_loop_head = [] \<and>
   FlushBlockedThreads (seed example_loop_head) (next_char example_loop_head) =
     Inr (example_search\<lparr>input_index := 1, pc_last_input_index := [0, - 1],
            active_threads := [\<lparr>pc = 0, match_begin = 1\<rparr>, \<lparr>pc = 1, match_begin = 0\<rparr>]\<rparr>) \<and>
   RunActiveThreads
       (example_search\<lparr>input_index := 1, pc_last_input_index := [0, - 1],
          active_threads := [\<lparr>pc = 0, match_begin = 1\<rparr>, \<lparr>pc = 1, match_begin = 0\<rparr>]\<rparr>) =
     Some (Inr (example_search\<lparr>input_index := 1, pc_last_input_index := [0, 1],
                  best_match := Some \<lparr>range_begin = 0, range_end = 1\<rparr>\<rparr>)) \<and>
   FindNextMatch_loop example_loop_head =
     FindNextMatch_loop
       (example_search\<lparr>input_index := 1, pc_last_input_index := [0, 1],
          best_match := Some \<lparr>range_begin = 0, range_end = 1\<rparr>\<rparr>) \<and>
   FindNextMatch_loop
       (example_search\<lparr>input_index := 1, pc_last_input_index := [0, 1],
          best_match := Some \<lparr>range_begin = 0, range_end = 1\<rparr>\<rparr>) =
     Some (Inr (example_search\<lparr>input_index := 1, pc_last_input_index := [0, 1],
                  best_match := Some \<lparr>range_begin = 0, range_end = 1\<rparr>\<rparr>))"
proof -
  let ?s4 = "example_search\<lparr>input_index := 1, pc_last_input_index := [0, 1],
          best_match := Some \<lparr>range_begin = 0, range_end = 1\<rparr>\<rparr>"
  have h: "active_threads example_search = [] \<and> blocked_threads example_search = [] \<and>
      best_match example_search = None"
    by (simp add: example_search_def)
  have r: "FindNextMatch example_search =
     Some (Inr (Some \<lparr>range_begin = 0, range_end = 1\<rparr>,
                example_search\<lparr>input_index := 1, pc_last_input_index := [0, 1]\<rparr>))"
    by code_simp
  have d: "RunActiveThreads (start_search example_search) = Some (Inr example_loop_head)"
    by code_simp
  have g: "0 \<le> input_index example_loop_head \<and>
      input_index example_loop_head \<le> int (length (input example_loop_head))"
    by (simp add: example_loop_head_def example_search_def example_input_def)
  have c: "input_index example_loop_head < int (length (input example_loop_head)) \<and>
      \<not> (best_match example_loop_head \<noteq> None \<and> blocked_threads example_loop_head = []) \<and>
      active_threads example_loop_head = []"
    by (simp add: example_loop_head_def example_search_def example_input_def)
  have f: "FlushBlockedThreads (seed example_loop_head) (next_char example_loop_head) =
     Inr (example_search\<lparr>input_index := 1, pc_last_input_index := [0, - 1],
            active_threads := [\<lparr>pc = 0, match_begin = 1\<rparr>, \<lparr>pc = 1, match_begin = 0\<rparr>]\<rparr>)"
    by code_simp
  have a: "RunActiveThreads
       (example_search\<lparr>input_index := 1, pc_last_input_index := [0, - 1],
          active_threads := [\<lparr>pc = 0, match_begin = 1\<rparr>, \<lparr>pc = 1, match_begin = 0\<rparr>]\<rparr>) =
     Some (Inr ?s4)"
    by code_simp
  note T = search_loop_runs_while_undecided[where s = example_loop_head, THEN conjunct2,
      THEN mp, OF g]
  from T[THEN conjunct2, THEN conjunct1, THEN mp, OF c, THEN conjunct1]
  have step: "FindNextMatch_loop example_loop_head = FindNextMatch_loop ?s4"
    by (simp only: f a sum.case option.case)
  have g4: "0 \<le> input_index ?s4 \<and> input_index ?s4 \<le> int (length (input ?s4))"
    by (simp add: example_search_def example_input_def)
  have n4: "\<not> (input_index ?s4 < int (length (input ?s4)) \<and>
          \<not> (best_match ?s4 \<noteq> None \<and> blocked_threads ?s4 = []))"
    by (simp add: example_search_def)
  from search_loop_runs_while_undecided[where s = ?s4, THEN conjunct2, THEN mp, OF g4,
      THEN conjunct1, THEN mp, OF n4]
  have stop: "FindNextMatch_loop ?s4 = Some (Inr ?s4)" .
  from c have c': "0 \<le> input_index example_loop_head"
    "input_index example_loop_head < int (length (input example_loop_head))"
    "\<not> (best_match example_loop_head \<noteq> None \<and> blocked_threads example_loop_head = [])"
    "active_threads example_loop_head = []"
    using g by simp_all
  from h have h': "active_threads example_search = []" "blocked_threads example_search = []"
    "best_match example_search = None" by simp_all
  show ?thesis
    by (intro conjI h' r d c' f a step stop)
qed

text \<open>
  Claim C10.  For a program whose first instruction is \<^verbatim>\<open>ACCEPT\<close>, every input, every
  start index within the input and every \<open>k\<close> from 0 to the length of the output buffer,
  the search for \<open>k\<close> matches returns \<open>k\<close> and fills the first \<open>k\<close> places of the buffer
  with the empty range at the start index: the input index is not moved after a match of
  length zero.
\<close>

theorem zero_length_match_repeats:
  assumes "code \<noteq> []" and "code ! 0 = ACCEPT"
    and "0 \<le> start" and "start \<le> int (length inp)"
    and "0 \<le> k" and "k \<le> int (length out)"
  shows "FindMatchesNfa code inp start out k =
     Some (Inr (replicate (nat k) \<lparr>range_begin = start, range_end = start\<rparr> @
                drop (nat k) out, k))"
proof -
  let ?s = "\<lparr>bytecode = code, input = inp, input_index = start,
                pc_last_input_index = replicate (length code) (- 1),
                active_threads = [], blocked_threads = [], best_match = None\<rparr>"
  have new: "NfaInterpreter_new code inp start = Inr ?s"
    using assms by (simp add: NfaInterpreter_new_def)
  obtain s' where "FindMatches_loop ?s out k 0 =
     Some (Inr (s', take (nat 0) out @
                    replicate (nat (k - 0))
                      \<lparr>range_begin = input_index ?s, range_end = input_index ?s\<rparr> @
                    drop (nat k) out, k))"
    using FindMatches_loop_ACCEPT_first[of ?s 0 k out] assms
    by (auto simp: clean_def)
  with new show ?thesis
    by (simp add: FindMatchesNfa_def FindMatches_def)
qed

theorem zero_length_match_repeats_witness:
  "[ACCEPT] \<noteq> [] \<and> [ACCEPT] ! 0 = ACCEPT \<and> (0::int) \<le> 1 \<and>
   (1::int) \<le> int (length [5, 6 :: 8 word]) \<and> (0::int) \<le> 3 \<and>
   (3::int) \<le> int (length (replicate 4 \<lparr>range_begin = 7, range_end = 9\<rparr>)) \<and>
   FindMatchesNfa [ACCEPT] [5, 6 :: 8 word] 1
       (replicate 4 \<lparr>range_begin = 7, range_end = 9\<rparr>) 3 =
     Some (Inr ([\<lparr>range_begin = 1, range_end = 1\<rparr>, \<lparr>range_begin = 1, range_end = 1\<rparr>,
                 \<lparr>range_begin = 1, range_end = 1\<rparr>, \<lparr>range_begin = 7, range_end = 9\<rparr>], 3))"
  using zero_length_match_repeats[of "[ACCEPT]" 1 "[5, 6 :: 8 word]" 3
      "replicate 4 \<lparr>range_begin = 7, range_end = 9\<rparr>"]
  by (simp add: numeral_eq_Suc)

text \<open>
  Claim C2, as amended.  For every valid program whose last instruction is neither
  \<^verbatim>\<open>CONSUME_RANGE\<close> nor \<^verbatim>\<open>FORK\<close>, every input, every start index within the input and
  every \<open>k\<close> from 0 to the length of the output buffer, the search returns a number \<open>n\<close>
  of matches with \<open>0 \<le> n \<le> k\<close> and writes them to the first \<open>n\<close> places of the buffer,
  leaving the other places as they were.  Each match begins no later than it ends and
  ends within the input; each match after the first begins no earlier than the end of the
  one before it.  The match at place \<open>i\<close> is the match that a search of a fresh
  interpreter finds from the input index where the match at place \<open>i - 1\<close> ended (from
  the start index for the first), and when fewer than \<open>k\<close> matches were found, the search
  from the end of the last one finds none.  The buffer of the code is a pointer; that it
  has room for \<open>k\<close> matches is the caller's obligation, and a hypothesis here.
\<close>

theorem FindMatches_postcondition:
  fixes inp :: "'c::len word list"
  assumes "valid_program code" and "stays_within code"
    and "0 \<le> start" and "start \<le> int (length inp)"
    and "0 \<le> k" and "k \<le> int (length out)"
  shows "\<exists>out' n. FindMatchesNfa code inp start out k = Some (Inr (out', n)) \<and>
     0 \<le> n \<and> n \<le> k \<and> length out' = length out \<and>
     (\<forall>i. nat n \<le> i \<longrightarrow> out' ! i = out ! i) \<and>
     (\<forall>i < nat n. range_begin (out' ! i) \<le> range_end (out' ! i) \<and>
        range_end (out' ! i) \<le> int (length inp)) \<and>
     (\<forall>i < nat n. 0 < i \<longrightarrow> range_end (out' ! (i - 1)) \<le> range_begin (out' ! i)) \<and>
     (\<forall>i < nat n. start \<le> range_begin (out' ! i)) \<and>
     (\<forall>i < nat n.
        found_at code inp (if i = 0 then start else range_end (out' ! (i - 1)))
          (Some (out' ! i))) \<and>
     (n < k \<longrightarrow>
        found_at code inp (if n = 0 then start else range_end (out' ! (nat n - 1))) None)"
proof -
  from FindMatchesNfa_spec[OF well_formedI[OF assms(1,2)] assms(3-6)] obtain out' n where
    run: "FindMatchesNfa code inp start out k = Some (Inr (out', n))"
    and n: "0 \<le> n" "n \<le> k" and len: "length out' = length out"
    and rest: "\<forall>i. nat n \<le> i \<longrightarrow> out' ! i = out ! i"
    and ok: "\<forall>i < nat n. match_ok code inp (cursor start 0 out' i) (out' ! i)"
    and last: "n < k \<longrightarrow> found_at code inp (cursor start 0 out' (nat n)) None"
    by blast
  have ok': "match_ok code inp (if i = 0 then start else range_end (out' ! (i - 1))) (out' ! i)"
    if "i < nat n" for i using ok that by (simp add: cursor_def)
  have mono: "start \<le> range_begin (out' ! i)" if "i < nat n" for i
    using that
  proof (induction i)
    case 0
    with ok'[of 0] show ?case by (simp add: match_ok_def)
  next
    case (Suc i)
    then have "start \<le> range_begin (out' ! i)" by simp
    moreover from ok'[of i] Suc.prems have "range_begin (out' ! i) \<le> range_end (out' ! i)"
      by (simp add: match_ok_def)
    moreover from ok'[of "Suc i"] Suc.prems
    have "range_end (out' ! i) \<le> range_begin (out' ! Suc i)"
      by (simp add: match_ok_def)
    ultimately show ?case by simp
  qed
  have "\<forall>i < nat n. range_begin (out' ! i) \<le> range_end (out' ! i) \<and>
        range_end (out' ! i) \<le> int (length inp)"
    using ok' by (simp add: match_ok_def)
  moreover have "\<forall>i < nat n. 0 < i \<longrightarrow> range_end (out' ! (i - 1)) \<le> range_begin (out' ! i)"
  proof (intro allI impI)
    fix i assume "i < nat n" "0 < i"
    with ok'[of i] show "range_end (out' ! (i - 1)) \<le> range_begin (out' ! i)"
      by (simp add: match_ok_def)
  qed
  moreover have "\<forall>i < nat n. start \<le> range_begin (out' ! i)" using mono by blast
  moreover have "\<forall>i < nat n.
        found_at code inp (if i = 0 then start else range_end (out' ! (i - 1)))
          (Some (out' ! i))"
    using ok' by (simp add: match_ok_def)
  moreover have "n < k \<longrightarrow>
        found_at code inp (if n = 0 then start else range_end (out' ! (nat n - 1))) None"
    using last n by (auto simp: cursor_def)
  ultimately show ?thesis using run n len rest by blast
qed

theorem FindMatches_postcondition_witness:
  "valid_program example_program \<and> stays_within example_program \<and>
   (0::int) \<le> 0 \<and> (0::int) \<le> int (length example_input) \<and>
   (0::int) \<le> 3 \<and>
   (3::int) \<le> int (length (replicate 3 \<lparr>range_begin = 0, range_end = 0\<rparr>)) \<and>
   FindMatchesNfa example_program example_input 0
       (replicate 3 \<lparr>range_begin = 0, range_end = 0\<rparr>) 3 =
     Some (Inr ([\<lparr>range_begin = 0, range_end = 1\<rparr>, \<lparr>range_begin = 2, range_end = 3\<rparr>,
                 \<lparr>range_begin = 4, range_end = 5\<rparr>], 3)) \<and>
   (\<exists>out' n. FindMatchesNfa example_program example_input 0
       (replicate 3 \<lparr>range_begin = 0, range_end = 0\<rparr>) 3 = Some (Inr (out', n)) \<and>
     n \<le> 3)"
proof -
  have h: "valid_program example_program" "stays_within example_program" "(0::int) \<le> 0"
    "(0::int) \<le> int (length example_input)" "(0::int) \<le> 3"
    "(3::int) \<le> int (length (replicate 3 \<lparr>range_begin = 0, range_end = 0\<rparr>))"
    by code_simp+
  have e: "FindMatchesNfa example_program example_input 0
       (replicate 3 \<lparr>range_begin = 0, range_end = 0\<rparr>) 3 =
     Some (Inr ([\<lparr>range_begin = 0, range_end = 1\<rparr>, \<lparr>range_begin = 2, range_end = 3\<rparr>,
                 \<lparr>range_begin = 4, range_end = 5\<rparr>], 3))"
    by code_simp
  from FindMatches_postcondition[OF h]
  have "\<exists>out' n. FindMatchesNfa example_program example_input 0
       (replicate 3 \<lparr>range_begin = 0, range_end = 0\<rparr>) 3 = Some (Inr (out', n)) \<and>
     n \<le> 3" by blast
  with h e show ?thesis by blast
qed

text \<open>
  The claim as the spec states it, for every valid program, fails for a valid program that
  ends with a \<^verbatim>\<open>CONSUME_RANGE\<close> or a \<^verbatim>\<open>FORK\<close> instruction.  On the input \<^verbatim>\<open>a\<close> the
  thread of \<open>short_program\<close> consumes the code unit and is stepped at the program counter
  1, where the code reads beyond the table of processed program counters and beyond the
  program: no number of matches is returned.  The same happens to the program that is a
  single \<^verbatim>\<open>FORK\<close> to itself.
\<close>

theorem FindMatches_runs_off_the_end:
  "valid_program short_program \<and>
   FindMatchesNfa short_program [0x61 :: 8 word] 0 [\<lparr>range_begin = 0, range_end = 0\<rparr>] 1 =
     Some (Inl OutOfBounds) \<and>
   valid_program [FORK 0] \<and>
   FindMatchesNfa [FORK 0] [0x61 :: 8 word] 0 [\<lparr>range_begin = 0, range_end = 0\<rparr>] 1 =
     Some (Inl OutOfBounds)"
  by code_simp

text \<open>
  Claim C7.  Every loop of the interpreter returns, for every program, with or without
  cycles of \<^verbatim>\<open>FORK\<close> and \<^verbatim>\<open>JMP\<close>: stepping a thread, draining the active threads,
  the loop over the input, the search of one match and the search of several matches.  For
  a well-formed program (every valid program that does not end with \<^verbatim>\<open>CONSUME_RANGE\<close>
  or \<^verbatim>\<open>FORK\<close> is one) the search of one match returns without a failed assertion.  The reason
  is the table of processed program counters: a thread whose program counter is recorded
  for the current input index is dropped before its instruction is decoded; a call that
  decodes an instruction leaves fewer unrecorded program counters than it found, of which
  there are no more than the program has instructions; and a record made while the active
  threads are drained stays until they are all drained.
\<close>

theorem search_terminates:
  fixes s :: "'c::len word NfaInterpreter"
  shows "(\<exists>r. RunActiveThread s t = Some r) \<and> (\<exists>r. RunActiveThreads s = Some r) \<and>
     (\<exists>r. FindNextMatch_loop s = Some r) \<and> (\<exists>r. FindNextMatch s = Some r) \<and>
     (\<exists>r. FindMatches s out k = Some r) \<and>
     (well_formed (bytecode s) \<and> clean s \<and> 0 \<le> input_index s \<and>
      input_index s \<le> int (length (input s)) \<longrightarrow>
        (\<exists>m s'. FindNextMatch s = Some (Inr (m, s')))) \<and>
     (IsPcProcessed s (pc t) = Inr True \<longrightarrow> RunActiveThread s t = Some (Inr s)) \<and>
     (\<forall>s'. RunActiveThread s t = Some (Inr s') \<longrightarrow>
        s' = s \<or> unprocessed s' < unprocessed s \<and>
          unprocessed s \<le> length (pc_last_input_index s)) \<and>
     (\<forall>s' p. RunActiveThreads s = Some (Inr s') \<longrightarrow> p < length (pc_last_input_index s) \<longrightarrow>
        pc_last_input_index s ! p = input_index s \<longrightarrow>
        pc_last_input_index s' ! p = input_index s')"
proof (intro conjI impI allI)
  show "\<exists>r. RunActiveThread s t = Some r" by (rule RunActiveThread_returns)
  show "\<exists>r. RunActiveThreads s = Some r" by (rule RunActiveThreads_returns)
  show "\<exists>r. FindNextMatch_loop s = Some r" by (rule FindNextMatch_loop_returns)
  show "\<exists>r. FindNextMatch s = Some r" by (rule FindNextMatch_returns)
  show "\<exists>r. FindMatches s out k = Some r"
    unfolding FindMatches_def by (rule FindMatches_loop_returns)
next
  assume "well_formed (bytecode s) \<and> clean s \<and> 0 \<le> input_index s \<and>
      input_index s \<le> int (length (input s))"
  then show "\<exists>m s'. FindNextMatch s = Some (Inr (m, s'))"
    using FindNextMatch_spec[of s] by blast
next
  assume "IsPcProcessed s (pc t) = Inr True"
  then show "RunActiveThread s t = Some (Inr s)" by (rule RunActiveThread_processed)
next
  fix s' assume "RunActiveThread s t = Some (Inr s')"
  from RunActiveThread_progress[OF this] unprocessed_le[of s]
  show "s' = s \<or> unprocessed s' < unprocessed s \<and>
          unprocessed s \<le> length (pc_last_input_index s)" by blast
next
  fix s' p
  assume "RunActiveThreads s = Some (Inr s')" "p < length (pc_last_input_index s)"
    "pc_last_input_index s ! p = input_index s"
  then show "pc_last_input_index s' ! p = input_index s'"
    by (rule RunActiveThreads_marks[OF _ refl])
qed

theorem search_terminates_witness:
  "well_formed (bytecode cyclic_state) \<and> clean cyclic_state \<and>
   0 \<le> input_index cyclic_state \<and>
   input_index cyclic_state \<le> int (length (input cyclic_state)) \<and>
   FindNextMatch cyclic_state =
     Some (Inr (None, cyclic_state\<lparr>input_index := 1, pc_last_input_index := [1, 1, 1, 1]\<rparr>)) \<and>
   (\<exists>m s'. FindNextMatch cyclic_state = Some (Inr (m, s')))"
proof -
  have h: "well_formed (bytecode cyclic_state) \<and> clean cyclic_state \<and>
      0 \<le> input_index cyclic_state \<and>
      input_index cyclic_state \<le> int (length (input cyclic_state))"
    by code_simp
  have e: "FindNextMatch cyclic_state =
     Some (Inr (None, cyclic_state\<lparr>input_index := 1, pc_last_input_index := [1, 1, 1, 1]\<rparr>))"
    by code_simp
  note imp = search_terminates[where s = cyclic_state and t = "example_thread 0"
      and out = "[]" and k = 0, THEN conjunct2, THEN conjunct2, THEN conjunct2,
      THEN conjunct2, THEN conjunct2, THEN conjunct1]
  from imp h have ex: "\<exists>m s'. FindNextMatch cyclic_state = Some (Inr (m, s'))"
    by (rule mp)
  from conjI[OF h conjI[OF e ex]] show ?thesis unfolding conj_assoc .
qed

text \<open>
  Claim C9, as amended.  On the input \<^verbatim>\<open>abcccccccccccccc\<close>, from the start index 0 and
  for every limit \<open>k \<ge> 1\<close>, the program of scenario 1 (with its label \<^verbatim>\<open>end\<close> at any
  instruction of the listing) yields at least one match, and the first match is \<open>(0, 3)\<close>:
  the first alternative \<^verbatim>\<open>abc\<close> has the highest priority and wins, as a backtracking
  implementation would have it and as the comment of the class says.  With \<open>k = 1\<close> this
  is the only match.
\<close>

theorem scenario1_first_alternative_wins:
  assumes "0 \<le> e" and "e < 13" and "1 \<le> k" and "k \<le> int (length out)"
  shows "\<exists>out' n. FindMatchesNfaOneByte (scenario1 e) scenario1_input 0 out k =
             Some (Inr (out', n)) \<and>
           1 \<le> n \<and> n \<le> k \<and> out' ! 0 = \<lparr>range_begin = 0, range_end = 3\<rparr>"
proof -
  from scenario1_labels scenario1_label_cases[OF assms(1,2)]
  have vp: "well_formed (scenario1 e)"
    and first: "found_at (scenario1 e) scenario1_input 0
                  (Some \<lparr>range_begin = 0, range_end = 3\<rparr>)"
    unfolding list_all_iff by blast+
  have len: "(0::int) \<le> int (length scenario1_input)" by simp
  from assms(3) have k0: "0 \<le> k" by simp
  from FindMatchesNfa_spec[OF vp order_refl len k0 assms(4)] obtain out' n where
    run: "FindMatchesNfa (scenario1 e) scenario1_input 0 out k = Some (Inr (out', n))"
    and n: "0 \<le> n" "n \<le> k"
    and ok: "\<forall>i < nat n. match_ok (scenario1 e) scenario1_input (cursor 0 0 out' i) (out' ! i)"
    and last: "n < k \<longrightarrow> found_at (scenario1 e) scenario1_input (cursor 0 0 out' (nat n)) None"
    by blast
  have n1: "1 \<le> n"
  proof (rule ccontr)
    assume "\<not> 1 \<le> n"
    with n have "n = 0" by simp
    with last assms(3) have "found_at (scenario1 e) scenario1_input 0 None"
      by (simp add: cursor_def)
    with first show False by (auto dest: found_at_unique)
  qed
  then have "0 < nat n" by simp
  with ok have "match_ok (scenario1 e) scenario1_input (cursor 0 0 out' 0) (out' ! 0)"
    by blast
  then have "found_at (scenario1 e) scenario1_input 0 (Some (out' ! 0))"
    by (simp add: match_ok_def cursor_def)
  with first have "out' ! 0 = \<lparr>range_begin = 0, range_end = 3\<rparr>"
    by (auto dest: found_at_unique)
  with run n n1 show ?thesis by (simp add: FindMatchesNfaOneByte_def)
qed

theorem scenario1_first_alternative_wins_witness:
  "(0::int) \<le> 9 \<and> (9::int) < 13 \<and> (1::int) \<le> 1 \<and>
   (1::int) \<le> int (length [\<lparr>range_begin = 0, range_end = 0\<rparr>]) \<and>
   (\<exists>out' n. FindMatchesNfaOneByte (scenario1 9) scenario1_input 0
                [\<lparr>range_begin = 0, range_end = 0\<rparr>] 1 = Some (Inr (out', n)) \<and>
           1 \<le> n \<and> n \<le> 1 \<and> out' ! 0 = \<lparr>range_begin = 0, range_end = 3\<rparr>)"
proof -
  have h: "(0::int) \<le> 9" "(9::int) < 13" "(1::int) \<le> 1"
    "(1::int) \<le> int (length [\<lparr>range_begin = 0, range_end = 0\<rparr>])" by simp_all
  from scenario1_first_alternative_wins[OF h] h show ?thesis by blast
qed

text \<open>
  The claim as the spec states it names the match \<open>(0, 2)\<close> and says that it is the only
  one.  The code returns \<open>(0, 3)\<close>, whether the label \<^verbatim>\<open>end\<close> is one of the two
  \<^verbatim>\<open>ACCEPT\<close> instructions of the listing or a further \<^verbatim>\<open>ACCEPT\<close> after it, and with
  room for three matches it returns three.
\<close>

theorem scenario1_match_is_not_0_2:
  "FindMatchesNfaOneByte (scenario1 9) scenario1_input 0
      [\<lparr>range_begin = 0, range_end = 0\<rparr>] 1 =
     Some (Inr ([\<lparr>range_begin = 0, range_end = 3\<rparr>], 1)) \<and>
   FindMatchesNfaOneByte (scenario1 4) scenario1_input 0
      [\<lparr>range_begin = 0, range_end = 0\<rparr>] 1 =
     Some (Inr ([\<lparr>range_begin = 0, range_end = 3\<rparr>], 1)) \<and>
   FindMatchesNfaOneByte (scenario1 13 @ [ACCEPT]) scenario1_input 0
      [\<lparr>range_begin = 0, range_end = 0\<rparr>] 1 =
     Some (Inr ([\<lparr>range_begin = 0, range_end = 3\<rparr>], 1)) \<and>
   FindMatchesNfaOneByte (scenario1 9) scenario1_input 0
      [\<lparr>range_begin = 0, range_end = 0\<rparr>] 1 \<noteq>
     Some (Inr ([\<lparr>range_begin = 0, range_end = 2\<rparr>], 1)) \<and>
   FindMatchesNfaOneByte (scenario1 9) scenario1_input 0
      (replicate 3 \<lparr>range_begin = 0, range_end = 0\<rparr>) 3 =
     Some (Inr ([\<lparr>range_begin = 0, range_end = 3\<rparr>, \<lparr>range_begin = 3, range_end = 5\<rparr>,
                 \<lparr>range_begin = 5, range_end = 7\<rparr>], 3))"
  by code_simp

text \<open>
  Claim C8, as amended.  For a valid program whose last instruction is neither
  \<^verbatim>\<open>CONSUME_RANGE\<close> nor \<^verbatim>\<open>FORK\<close>, at every moment of a search of one match the blocked
  threads stand at pairwise different program counters, and neither the active nor the
  blocked threads are more than the program has instructions.  (Two active threads may have the same
  program counter: a thread is compared with the table when it is stepped, not when it
  is pushed.)  The moments are the states of the invariant \<open>search_inv\<close> and \<open>bound_inv\<close>,
  of which the first says that the program is well formed, as every such program is:
  it holds when the search starts to drain the active threads, and it is kept by popping a
  thread, by each iteration of the stepping loop (a \<^verbatim>\<open>FORK\<close> or a \<^verbatim>\<open>JMP\<close>), by a whole
  call of the stepper, by draining the active threads, and by reading a code unit and
  flushing the blocked threads, during which the active threads stay within the bound too.
\<close>

theorem sizes_bounded_by_program:
  fixes s :: "'c::len word NfaInterpreter"
  shows
  "(valid_program (bytecode s) \<and> stays_within (bytecode s) \<and> clean s \<and>
    0 \<le> input_index s \<and> input_index s \<le> int (length (input s)) \<longrightarrow>
      search_inv (input_index s) (start_search s) \<and> bound_inv (start_search s)) \<and>
   (search_inv lo s \<and> bound_inv s \<longrightarrow>
      length (active_threads s) \<le> length (bytecode s) \<and>
      length (blocked_threads s) \<le> length (bytecode s) \<and>
      distinct (map pc (blocked_threads s)) \<and>
      (active_threads s \<noteq> [] \<longrightarrow>
         search_inv lo (s\<lparr>active_threads := butlast (active_threads s)\<rparr>) \<and>
         bound_inv (s\<lparr>active_threads := butlast (active_threads s)\<rparr>) \<and>
         thread_inv (bytecode s) lo (input_index s) (last (active_threads s))) \<and>
      (\<forall>t. thread_inv (bytecode s) lo (input_index s) t \<longrightarrow>
         (\<forall>target. IsPcProcessed s (pc t) = Inr False \<and>
            bytecode s ! nat (pc t) = FORK target \<longrightarrow>
            search_inv lo
              ((mark s (pc t))\<lparr>active_threads := active_threads s @ [t\<lparr>pc := target\<rparr>]\<rparr>) \<and>
            bound_inv
              ((mark s (pc t))\<lparr>active_threads := active_threads s @ [t\<lparr>pc := target\<rparr>]\<rparr>) \<and>
            thread_inv (bytecode s) lo (input_index s) (t\<lparr>pc := pc t + 1\<rparr>)) \<and>
         (\<forall>target. IsPcProcessed s (pc t) = Inr False \<and>
            bytecode s ! nat (pc t) = JMP target \<longrightarrow>
            search_inv lo (mark s (pc t)) \<and> bound_inv (mark s (pc t)) \<and>
            thread_inv (bytecode s) lo (input_index s) (t\<lparr>pc := target\<rparr>)) \<and>
         (\<forall>s'. RunActiveThread s t = Some (Inr s') \<longrightarrow> search_inv lo s' \<and> bound_inv s')) \<and>
      (\<forall>s'. RunActiveThreads s = Some (Inr s') \<longrightarrow> search_inv lo s' \<and> bound_inv s') \<and>
      (searching s \<and> active_threads s = [] \<longrightarrow>
         (\<forall>c. (\<forall>j \<le> length (blocked_threads s).
                 FlushBlockedThreads_loop (seed s) c (length (blocked_threads (seed s))) =
                   FlushBlockedThreads_loop (flushed_from (seed s) c j) c j \<and>
                 length (active_threads (flushed_from (seed s) c j)) \<le> length (bytecode s)) \<and>
              (\<exists>s3. FlushBlockedThreads (seed s) c = Inr s3 \<and>
                    search_inv lo s3 \<and> bound_inv s3))))"
proof (intro conjI impI allI)
  assume a: "valid_program (bytecode s) \<and> stays_within (bytecode s) \<and> clean s \<and>
    0 \<le> input_index s \<and> input_index s \<le> int (length (input s))"
  then have "well_formed (bytecode s)" by (intro well_formedI) simp_all
  with a show "search_inv (input_index s) (start_search s)"
    by (intro search_inv_start_search) simp_all
  from a show "bound_inv (start_search s)" by (intro bound_inv_start_search) simp
next
  assume a: "search_inv lo s \<and> bound_inv s"
  then have si: "search_inv lo s" and bi: "bound_inv s" by simp_all
  from si have vp: "well_formed (bytecode s)" and bo: "blocked_ok s"
    by (simp_all add: search_inv_def)
  from bound_inv_bounded[OF vp bo bi]
  show "length (active_threads s) \<le> length (bytecode s)"
    "length (blocked_threads s) \<le> length (bytecode s)"
    "distinct (map pc (blocked_threads s))"
    by (simp_all add: bounded_def)
  {
    assume ne: "active_threads s \<noteq> []"
    from search_inv_pop[OF si ne]
    show "search_inv lo (s\<lparr>active_threads := butlast (active_threads s)\<rparr>)"
      "thread_inv (bytecode s) lo (input_index s) (last (active_threads s))" .
    from bound_inv_pop[OF bi]
    show "bound_inv (s\<lparr>active_threads := butlast (active_threads s)\<rparr>)" .
  }
  {
    fix t target
    assume ti: "thread_inv (bytecode s) lo (input_index s) t"
      and f: "IsPcProcessed s (pc t) = Inr False \<and> bytecode s ! nat (pc t) = FORK target"
    then have run: "runnable s (pc t)" and ins: "bytecode s ! nat (pc t) = FORK target"
      by (simp_all add: runnable_iff)
    from ti have lt: "pc t < int (length (bytecode s))" by (simp add: thread_inv_def)
    from search_inv_step_fork[OF si ti ins]
    show "search_inv lo
            ((mark s (pc t))\<lparr>active_threads := active_threads s @ [t\<lparr>pc := target\<rparr>]\<rparr>)"
      "thread_inv (bytecode s) lo (input_index s) (t\<lparr>pc := pc t + 1\<rparr>)" .
    from bound_inv_step_fork[OF bi run lt ins]
    show "bound_inv
            ((mark s (pc t))\<lparr>active_threads := active_threads s @ [t\<lparr>pc := target\<rparr>]\<rparr>)" .
  }
  {
    fix t target
    assume ti: "thread_inv (bytecode s) lo (input_index s) t"
      and f: "IsPcProcessed s (pc t) = Inr False \<and> bytecode s ! nat (pc t) = JMP target"
    from si show "search_inv lo (mark s (pc t))" by (rule search_inv_mark)
    from bi show "bound_inv (mark s (pc t))" by (rule bound_inv_step_jmp)
    from search_inv_step_jmp[OF si ti] f
    show "thread_inv (bytecode s) lo (input_index s) (t\<lparr>pc := target\<rparr>)" by simp
  }
  {
    fix t s'
    assume ti: "thread_inv (bytecode s) lo (input_index s) t"
      and r: "RunActiveThread s t = Some (Inr s')"
    from RunActiveThread_search_inv[OF r si ti] show "search_inv lo s'" by simp
    from RunActiveThread_bound_inv[OF r refl bi] show "bound_inv s'" .
  }
  {
    fix s'
    assume r: "RunActiveThreads s = Some (Inr s')"
    from RunActiveThreads_search_inv[OF r si] show "search_inv lo s'" by simp
    from RunActiveThreads_bound_inv[OF r refl bi] show "bound_inv s'" .
  }
  {
    fix c
    assume b: "searching s \<and> active_threads s = []"
    then have se: "searching s" and em: "active_threads s = []" by simp_all
    from bo have bo': "blocked_ok (seed s)" by (simp add: blocked_ok_def)
    {
      fix j assume j: "j \<le> length (blocked_threads s)"
      from FlushBlockedThreads_loop_split[OF bo', of j c] j
      show "FlushBlockedThreads_loop (seed s) c (length (blocked_threads (seed s))) =
            FlushBlockedThreads_loop (flushed_from (seed s) c j) c j" by simp
      from bound_inv_feed(1)[OF si bi em, of c j] capacity_le[OF vp]
      show "length (active_threads (flushed_from (seed s) c j)) \<le> length (bytecode s)"
        by simp
    }
    let ?s3 = "(flushed_from (seed s) c 0)\<lparr>blocked_threads := []\<rparr>"
    note fl = FlushBlockedThreads_flushed_from[OF bo', of c]
    from search_inv_feed[OF si se em fl] have "search_inv lo ?s3" by simp
    with fl bound_inv_feed(2)[OF si bi em, of c]
    show "\<exists>s3. FlushBlockedThreads (seed s) c = Inr s3 \<and> search_inv lo s3 \<and> bound_inv s3"
      by blast
  }
qed

theorem sizes_bounded_by_program_witness:
  "valid_program (bytecode duplicate_state) \<and> stays_within (bytecode duplicate_state) \<and>
   clean duplicate_state \<and> 0 \<le> input_index duplicate_state \<and>
   input_index duplicate_state \<le> int (length (input duplicate_state)) \<and>
   search_inv 0 (start_search duplicate_state) \<and> bound_inv (start_search duplicate_state) \<and>
   length (active_threads (start_search duplicate_state))
     \<le> length (bytecode (start_search duplicate_state))"
proof -
  have h: "valid_program (bytecode duplicate_state) \<and>
      stays_within (bytecode duplicate_state) \<and> clean duplicate_state \<and>
      0 \<le> input_index duplicate_state \<and>
      input_index duplicate_state \<le> int (length (input duplicate_state))"
    by code_simp
  have i0: "input_index duplicate_state = 0" by (simp add: duplicate_state_def)
  note T = sizes_bounded_by_program[where s = duplicate_state]
  from T[THEN conjunct1] h
  have inv: "search_inv 0 (start_search duplicate_state) \<and>
             bound_inv (start_search duplicate_state)"
    unfolding i0 by (rule mp)
  note T' = sizes_bounded_by_program[where s = "start_search duplicate_state" and lo = 0]
  from T'[THEN conjunct2] inv
  have "length (active_threads (start_search duplicate_state))
     \<le> length (bytecode (start_search duplicate_state))"
    by blast
  with h inv show ?thesis by (simp only: simp_thms)
qed

text \<open>
  The claim as the spec states it fails: after the first call of the stepper in a search
  of the program \<open>duplicate_program\<close>, two active threads have the program counter 3.
  The bound on the sizes fails for a valid program that ends with \<^verbatim>\<open>CONSUME_RANGE\<close>: when
  the search of \<open>short_program\<close> on the input \<^verbatim>\<open>a\<close> has read the code unit and flushed the
  blocked thread, two threads are active, and the program has one instruction.
\<close>

theorem duplicate_pc_in_active:
  "valid_program duplicate_program \<and>
   NfaInterpreter_new duplicate_program [0x61] 0 = Inr duplicate_state \<and>
   start_search duplicate_state =
     duplicate_state\<lparr>active_threads := [\<lparr>pc = 0, match_begin = 0\<rparr>]\<rparr> \<and>
   RunActiveThread duplicate_state \<lparr>pc = 0, match_begin = 0\<rparr> =
     Some (Inr (duplicate_state\<lparr>pc_last_input_index := [0, 0, 0, - 1],
                  active_threads := [\<lparr>pc = 3, match_begin = 0\<rparr>, \<lparr>pc = 3, match_begin = 0\<rparr>],
                  blocked_threads := [\<lparr>pc = 2, match_begin = 0\<rparr>]\<rparr>)) \<and>
   \<not> distinct (map pc ([\<lparr>pc = 3, match_begin = 0\<rparr>, \<lparr>pc = 3, match_begin = 0\<rparr>] @
                         [\<lparr>pc = 2, match_begin = 0\<rparr>])) \<and>
   valid_program short_program \<and>
   NfaInterpreter_new short_program [0x61] 0 =
     Inr (short_loop_head\<lparr>pc_last_input_index := [- 1], blocked_threads := []\<rparr>) \<and>
   RunActiveThreads
       (start_search (short_loop_head\<lparr>pc_last_input_index := [- 1], blocked_threads := []\<rparr>)) =
     Some (Inr short_loop_head) \<and>
   searching short_loop_head \<and>
   FlushBlockedThreads (seed short_loop_head) (next_char short_loop_head) =
     Inr (short_loop_head\<lparr>input_index := 1,
            active_threads := [\<lparr>pc = 0, match_begin = 1\<rparr>, \<lparr>pc = 1, match_begin = 0\<rparr>],
            blocked_threads := []\<rparr>) \<and>
   \<not> length [\<lparr>pc = 0, match_begin = 1\<rparr>, \<lparr>pc = 1, match_begin = 0\<rparr>]
       \<le> length short_program"
  by code_simp

text \<open>
  Claim C1, as amended.  For every valid program whose last instruction is neither
  \<^verbatim>\<open>CONSUME_RANGE\<close> nor \<^verbatim>\<open>FORK\<close>, every input and every start index within the input:
  whenever the backtracking VM of the specification, started at the same index, returns a
  match or returns that there is none, the search of one match of a fresh interpreter
  returns the same.
\<close>

theorem search_agrees_with_backtracking:
  fixes inp :: "'c::len word list"
  assumes "valid_program code" and "stays_within code"
    and "0 \<le> start" and "start \<le> int (length inp)"
    and "spec_backtrack_search code inp start = Some v"
  shows "found_at code inp start v"
proof -
  from spec_backtrack_search_bt[OF assms(5)] obtain n where
    "bt_search n code inp start (nat (int (length inp) - start + 1)) = Some v" by blast
  with well_formedI[OF assms(1,2)] assms(3,4) show ?thesis by (rule found_at_refines)
qed

theorem search_agrees_with_backtracking_witness:
  "valid_program (scenario1 9) \<and> stays_within (scenario1 9) \<and> (0::int) \<le> 0 \<and>
   (0::int) \<le> int (length scenario1_input) \<and>
   spec_backtrack_search (scenario1 9) scenario1_input 0 =
     Some (Some \<lparr>range_begin = 0, range_end = 3\<rparr>) \<and>
   found_at (scenario1 9) scenario1_input 0 (Some \<lparr>range_begin = 0, range_end = 3\<rparr>)"
proof -
  have h: "valid_program (scenario1 9)" "stays_within (scenario1 9)" "(0::int) \<le> 0"
    "(0::int) \<le> int (length scenario1_input)"
    by code_simp+
  have b: "spec_backtrack_search (scenario1 9) scenario1_input 0 =
     Some (Some \<lparr>range_begin = 0, range_end = 3\<rparr>)"
    by code_simp
  from search_agrees_with_backtracking[OF h b] h b show ?thesis by (intro conjI)
qed

text \<open>
  The claim as the spec states it, for every valid program, fails in two ways.  On the
  program \<open>epsilon_cycle\<close> the backtracking VM does not return, because the continuation of
  the \<^verbatim>\<open>FORK\<close> jumps back to it without consuming input, while the search finds the
  empty match through the target of the \<^verbatim>\<open>FORK\<close>: there is no match of the VM that the
  result of the search could equal.  On the valid program \<open>short_program\<close>, which ends
  with \<^verbatim>\<open>CONSUME_RANGE\<close>, the VM returns that there is no match, and the search steps a
  thread beyond the program and fails.
\<close>

theorem backtracking_diverges_on_epsilon_cycle:
  "valid_program epsilon_cycle \<and> stays_within epsilon_cycle \<and>
   found_at epsilon_cycle ([] :: 8 word list) 0 (Some \<lparr>range_begin = 0, range_end = 0\<rparr>) \<and>
   spec_backtrack_search epsilon_cycle ([] :: 8 word list) 0 = None \<and>
   valid_program short_program \<and>
   spec_backtrack_search short_program [0x61 :: 8 word] 0 = Some None \<and>
   NfaInterpreter_new short_program [0x61 :: 8 word] 0 =
     Inr (short_loop_head\<lparr>pc_last_input_index := [- 1], blocked_threads := []\<rparr>) \<and>
   FindNextMatch (short_loop_head\<lparr>pc_last_input_index := [- 1], blocked_threads := []\<rparr>) =
     Some (Inl OutOfBounds)"
proof -
  have 1: "valid_program epsilon_cycle" "stays_within epsilon_cycle"
    "found_at epsilon_cycle ([] :: 8 word list) 0 (Some \<lparr>range_begin = 0, range_end = 0\<rparr>)"
    by code_simp+
  have 2: "spec_backtrack_search epsilon_cycle ([] :: 8 word list) 0 = None"
    by (subst spec_backtrack_search.simps) (simp add: epsilon_cycle_diverges)
  have 3: "valid_program short_program"
    "spec_backtrack_search short_program [0x61 :: 8 word] 0 = Some None"
    "NfaInterpreter_new short_program [0x61 :: 8 word] 0 =
      Inr (short_loop_head\<lparr>pc_last_input_index := [- 1], blocked_threads := []\<rparr>)"
    "FindNextMatch (short_loop_head\<lparr>pc_last_input_index := [- 1], blocked_threads := []\<rparr>) =
      Some (Inl OutOfBounds)"
    by code_simp+
  show ?thesis by (intro conjI 1 2 3)
qed

end
